theory Spec2Isabelle
  imports Complex_Main
begin

section \<open>JavaScript numbers\<close>

text \<open>
  The pipeline of \<^verbatim>\<open>src/app/page.tsx\<close> computes on JavaScript numbers. A number is
  modelled as a real, extended by the three special values the code can produce or
  receive: \<open>NaN\<close> (also what \<open>undefined\<close> becomes under arithmetic, \<open>Math.abs\<close>,
  \<open>Math.max\<close> and comparison: the result of reading a typed array or an array out of
  range), \<open>-Infinity\<close> (a literal of \<open>decodeOcrOutput\<close>) and \<open>Infinity\<close> (division of
  a non-zero number by zero). The operations below are exact on finite values;
  \<open>f64\<close> rounds a finite value to binary64 and is applied where the rounding decides
  an integer result, in the letterbox geometry. Overflow, underflow and the sign of
  zero are not modelled.
\<close>

datatype jsnum = NaN | NegInf | PosInf | Num real

fun js_neg :: "jsnum \<Rightarrow> jsnum" where
  "js_neg NaN = NaN"
| "js_neg NegInf = PosInf"
| "js_neg PosInf = NegInf"
| "js_neg (Num a) = Num (- a)"

fun js_add :: "jsnum \<Rightarrow> jsnum \<Rightarrow> jsnum" where
  "js_add (Num a) (Num b) = Num (a + b)"
| "js_add NaN _ = NaN"
| "js_add _ NaN = NaN"
| "js_add PosInf NegInf = NaN"
| "js_add NegInf PosInf = NaN"
| "js_add PosInf _ = PosInf"
| "js_add _ PosInf = PosInf"
| "js_add NegInf _ = NegInf"
| "js_add _ NegInf = NegInf"

definition js_sub :: "jsnum \<Rightarrow> jsnum \<Rightarrow> jsnum" where
  "js_sub x y = js_add x (js_neg y)"

text \<open>The sign of a value that is not NaN: \<open>True\<close> for the negative ones.\<close>

fun js_negative :: "jsnum \<Rightarrow> bool" where
  "js_negative NegInf = True"
| "js_negative (Num a) = (a < 0)"
| "js_negative _ = False"

fun js_mul :: "jsnum \<Rightarrow> jsnum \<Rightarrow> jsnum" where
  "js_mul (Num a) (Num b) = Num (a * b)"
| "js_mul NaN _ = NaN"
| "js_mul _ NaN = NaN"
| "js_mul x y =
     (if x = Num 0 \<or> y = Num 0 then NaN
      else if js_negative x = js_negative y then PosInf else NegInf)"

text \<open>
  Division. Every divisor of the source that can be zero is a non-negative quantity
  (an image width or height), so a zero divisor is read as \<open>+0\<close>.
\<close>

fun js_div :: "jsnum \<Rightarrow> jsnum \<Rightarrow> jsnum" where
  "js_div (Num a) (Num b) =
     (if b = 0 then (if a = 0 then NaN else if a < 0 then NegInf else PosInf)
      else Num (a / b))"
| "js_div NaN _ = NaN"
| "js_div _ NaN = NaN"
| "js_div (Num a) _ = Num 0"
| "js_div x (Num b) = (if js_negative x = (b < 0) then PosInf else NegInf)"
| "js_div _ _ = NaN"

text \<open>Comparison: every comparison with NaN is false.\<close>

fun js_lt :: "jsnum \<Rightarrow> jsnum \<Rightarrow> bool" where
  "js_lt (Num a) (Num b) = (a < b)"
| "js_lt NaN _ = False"
| "js_lt _ NaN = False"
| "js_lt _ NegInf = False"
| "js_lt NegInf _ = True"
| "js_lt PosInf _ = False"
| "js_lt _ PosInf = True"

definition js_gt :: "jsnum \<Rightarrow> jsnum \<Rightarrow> bool" where
  "js_gt x y = js_lt y x"

definition js_le :: "jsnum \<Rightarrow> jsnum \<Rightarrow> bool" where
  "js_le x y = (x \<noteq> NaN \<and> y \<noteq> NaN \<and> \<not> js_lt y x)"

text \<open>\<open>Math.max\<close> and \<open>Math.min\<close> of two arguments: NaN when either is NaN.\<close>

definition js_max :: "jsnum \<Rightarrow> jsnum \<Rightarrow> jsnum" where
  "js_max x y = (if x = NaN \<or> y = NaN then NaN else if js_lt x y then y else x)"

definition js_min :: "jsnum \<Rightarrow> jsnum \<Rightarrow> jsnum" where
  "js_min x y = (if x = NaN \<or> y = NaN then NaN else if js_lt y x then y else x)"

fun js_abs :: "jsnum \<Rightarrow> jsnum" where
  "js_abs NaN = NaN"
| "js_abs NegInf = PosInf"
| "js_abs PosInf = PosInf"
| "js_abs (Num a) = Num \<bar>a\<bar>"

fun js_exp :: "jsnum \<Rightarrow> jsnum" where
  "js_exp NaN = NaN"
| "js_exp NegInf = Num 0"
| "js_exp PosInf = PosInf"
| "js_exp (Num a) = Num (exp a)"

text \<open>\<open>Math.round\<close> rounds to the nearest integer, a half towards \<open>+\<infinity>\<close>.\<close>

fun js_round :: "jsnum \<Rightarrow> jsnum" where
  "js_round (Num a) = Num (of_int \<lfloor>a + 1 / 2\<rfloor>)"
| "js_round x = x"

fun js_floor :: "jsnum \<Rightarrow> jsnum" where
  "js_floor (Num a) = Num (of_int \<lfloor>a\<rfloor>)"
| "js_floor x = x"

text \<open>Truthiness of a number: \<open>0\<close> and NaN are falsy.\<close>

fun js_truthy :: "jsnum \<Rightarrow> bool" where
  "js_truthy NaN = False"
| "js_truthy (Num a) = (a \<noteq> 0)"
| "js_truthy _ = True"

text \<open>
  Rounding to binary64, to the nearest value with a significand of 53 bits, a tie to
  the even significand. \<open>round_even\<close> is the rounding of a real to an integer with that
  rule; \<open>f64_pos\<close> brings a positive real into \<open>[2^52, 2^53)\<close> by doubling or halving,
  rounds it there and undoes the scaling. The range of the exponent is not bounded:
  the quotients and products of the letterbox geometry, of sizes below \<open>2^32\<close>, are far
  inside the normal range.
\<close>

definition round_even :: "real \<Rightarrow> int" where
  "round_even x =
     (let f = \<lfloor>x\<rfloor>; r = x - of_int f
      in if r < 1 / 2 then f else if 1 / 2 < r then f + 1 else if even f then f else f + 1)"

function f64_pos :: "real \<Rightarrow> real" where
  "f64_pos x =
     (if x \<le> 0 then 0
      else if x < 2 ^ 52 then f64_pos (2 * x) / 2
      else if 2 ^ 53 \<le> x then 2 * f64_pos (x / 2)
      else of_int (round_even x))"
  by pat_completeness auto
termination
proof (relation "measure (\<lambda>x. nat \<bar>\<lfloor>log 2 x\<rfloor> - 52\<bar>)")
  show "wf (measure (\<lambda>x. nat \<bar>\<lfloor>log 2 x\<rfloor> - 52\<bar>))"
    by simp
next
  fix x :: real
  assume a: "\<not> x \<le> 0" "x < 2 ^ 52"
  have "log 2 x < log 2 (2 ^ 52)"
    using a by (intro log_less) simp_all
  then have "log 2 x < 52"
    using log_pow_cancel [of 2 52] by simp
  then have "\<lfloor>log 2 x\<rfloor> \<le> 51"
    by linarith
  moreover have "log 2 (2 * x) = 1 + log 2 x"
    using a by (simp add: log_mult_pos)
  ultimately show "(2 * x, x) \<in> measure (\<lambda>x. nat \<bar>\<lfloor>log 2 x\<rfloor> - 52\<bar>)"
    by simp
next
  fix x :: real
  assume a: "\<not> x \<le> 0" "\<not> x < 2 ^ 52" "2 ^ 53 \<le> x"
  have "log 2 (2 ^ 53) \<le> log 2 x"
    using a by (intro log_mono) simp_all
  then have "53 \<le> log 2 x"
    using log_pow_cancel [of 2 53] by simp
  then have "53 \<le> \<lfloor>log 2 x\<rfloor>"
    by linarith
  moreover have "log 2 (x / 2) = log 2 x - 1"
    using a by (simp add: log_divide_pos)
  ultimately show "(x / 2, x) \<in> measure (\<lambda>x. nat \<bar>\<lfloor>log 2 x\<rfloor> - 52\<bar>)"
    by simp
qed

declare f64_pos.simps [simp del]

fun f64 :: "jsnum \<Rightarrow> jsnum" where
  "f64 (Num a) = Num (if a < 0 then - f64_pos (- a) else f64_pos a)"
| "f64 x = x"

text \<open>
  Reading index \<open>i\<close> of an array or a typed array: \<open>undefined\<close> out of range, which
  every use in the source coerces to NaN.
\<close>

definition elem :: "jsnum list \<Rightarrow> nat \<Rightarrow> jsnum" where
  "elem a i = (if i < length a then a ! i else NaN)"

section \<open>Intersection over union\<close>

text \<open>
  \<^verbatim>\<open>const iou = (a: number[], b: number[]) => { ... }\<close>, with the three areas named
  as the source names them.
\<close>

definition interArea :: "jsnum list \<Rightarrow> jsnum list \<Rightarrow> jsnum" where
  "interArea a b =
     (let x1 = js_max (elem a 0) (elem b 0);
          y1 = js_max (elem a 1) (elem b 1);
          x2 = js_min (elem a 2) (elem b 2);
          y2 = js_min (elem a 3) (elem b 3)
      in js_mul (js_max (Num 0) (js_sub x2 x1)) (js_max (Num 0) (js_sub y2 y1)))"

definition boxArea :: "jsnum list \<Rightarrow> jsnum" where
  "boxArea a =
     js_mul (js_max (Num 0) (js_sub (elem a 2) (elem a 0)))
            (js_max (Num 0) (js_sub (elem a 3) (elem a 1)))"

definition iou :: "jsnum list \<Rightarrow> jsnum list \<Rightarrow> jsnum" where
  "iou a b =
     js_div (interArea a b)
       (js_max (Num 1) (js_sub (js_add (boxArea a) (boxArea b)) (interArea a b)))"

text \<open>A box with four finite coordinates.\<close>

definition rbox :: "real \<Rightarrow> real \<Rightarrow> real \<Rightarrow> real \<Rightarrow> jsnum list" where
  "rbox x1 y1 x2 y2 = [Num x1, Num y1, Num x2, Num y2]"

section \<open>Non-maximum suppression\<close>

record candidate =
  box :: "jsnum list"
  score :: jsnum

text \<open>
  \<^verbatim>\<open>[...boxes].sort((a, b) => b.score - a.score)\<close>. The comparator's result \<open>v\<close> puts
  \<open>a\<close> after \<open>b\<close> when \<open>v > 0\<close>; a NaN result counts as \<open>0\<close>. The sort is stable
  (ECMAScript 2019), so it is modelled as a stable insertion sort driven by the
  comparator. When a score is NaN the comparator is not consistent and the standard
  leaves the order to the implementation; the model then gives one admissible order.
\<close>

definition score_cmp :: "candidate \<Rightarrow> candidate \<Rightarrow> jsnum" where
  "score_cmp a b = js_sub (score b) (score a)"

fun insort_cmp :: "candidate \<Rightarrow> candidate list \<Rightarrow> candidate list" where
  "insort_cmp x [] = [x]"
| "insort_cmp x (y # ys) =
     (if js_gt (score_cmp x y) (Num 0) then y # insort_cmp x ys else x # y # ys)"

definition js_sort :: "candidate list \<Rightarrow> candidate list" where
  "js_sort boxes = foldr insort_cmp boxes []"

text \<open>
  The inner loop of \<open>nms\<close>:
  \<^verbatim>\<open>for (let i = sorted.length - 1; i >= 0; i -= 1)
    if (iou(current.box, sorted[i].box) > threshold) sorted.splice(i, 1);\<close>
  The first argument counts the indices still to visit: \<open>Suc i\<close> visits index \<open>i\<close>.
  \<open>overlaps\<close> is the test of the loop.
\<close>

definition overlaps :: "jsnum \<Rightarrow> candidate \<Rightarrow> candidate \<Rightarrow> bool" where
  "overlaps threshold current other = js_gt (iou (box current) (box other)) threshold"

fun suppress :: "nat \<Rightarrow> candidate \<Rightarrow> jsnum \<Rightarrow> candidate list \<Rightarrow> candidate list" where
  "suppress 0 current threshold sorted' = sorted'"
| "suppress (Suc i) current threshold sorted' =
     suppress i current threshold
       (if overlaps threshold current (sorted' ! i)
        then take i sorted' @ drop (Suc i) sorted'
        else sorted')"

text \<open>
  The outer loop: \<^verbatim>\<open>while (sorted.length) { const current = sorted.shift(); ... }\<close>,
  with \<open>selected.push(current)\<close> as an append.
\<close>

function nms_loop :: "jsnum \<Rightarrow> candidate list \<Rightarrow> candidate list \<Rightarrow> candidate list" where
  "nms_loop threshold [] selected = selected"
| "nms_loop threshold (current # sorted') selected =
     nms_loop threshold (suppress (length sorted') current threshold sorted')
       (selected @ [current])"
  by pat_completeness auto
termination
proof (relation "measure (\<lambda>(threshold, sorted', selected). length sorted')")
  show "wf (measure (\<lambda>(threshold, sorted', selected). length sorted'))"
    by simp
next
  fix threshold :: jsnum and current :: candidate
    and sorted' selected :: "candidate list"
  have shrink: "length (suppress k current threshold xs) \<le> length xs" for k xs
  proof (induction k arbitrary: xs)
    case 0
    show ?case by simp
  next
    case (Suc k)
    have "length (suppress k current threshold (take k xs @ drop (Suc k) xs))
        \<le> length (take k xs @ drop (Suc k) xs)"
      by (rule Suc.IH)
    also have "\<dots> \<le> length xs"
      by simp
    finally show ?case
      using Suc.IH [of xs] by simp
  qed
  show "((threshold, suppress (length sorted') current threshold sorted',
          selected @ [current]),
         (threshold, current # sorted', selected))
       \<in> measure (\<lambda>(threshold, sorted', selected). length sorted')"
    using shrink [of "length sorted'" sorted'] by simp
qed

definition nms :: "candidate list \<Rightarrow> jsnum \<Rightarrow> candidate list" where
  "nms boxes threshold = nms_loop threshold (js_sort boxes) []"

section \<open>Decoding the detector's output\<close>

text \<open>\<^verbatim>\<open>const sigmoid = (value: number) => 1 / (1 + Math.exp(-value));\<close>\<close>

definition sigmoid :: "jsnum \<Rightarrow> jsnum" where
  "sigmoid v = js_div (Num 1) (js_add (Num 1) (js_exp (js_neg v)))"

text \<open>
  An \<open>ort.Tensor\<close>: the flat buffer and the declared shape. The buffer holds numbers
  (a \<open>Float32Array\<close>), the shape natural numbers.
\<close>

record tensor =
  data :: "jsnum list"
  dims :: "nat list"

text \<open>\<open>Math.max(maxCoord, |a|, |b|, |c|, |d|)\<close>: NaN when any argument is.\<close>

definition max_abs4 :: "jsnum \<Rightarrow> jsnum \<Rightarrow> jsnum \<Rightarrow> jsnum \<Rightarrow> jsnum \<Rightarrow> jsnum" where
  "max_abs4 maxCoord a b c d =
     js_max (js_max (js_max (js_max maxCoord (js_abs a)) (js_abs b)) (js_abs c)) (js_abs d)"

text \<open>
  The end of both candidate loops, which the source writes out twice: the threshold
  test (\<open>continue\<close> keeps the list as it is) and the push of the corner-form box.
\<close>

definition push_candidate ::
  "jsnum \<Rightarrow> jsnum \<Rightarrow> jsnum \<Rightarrow> jsnum \<Rightarrow> jsnum \<Rightarrow> jsnum \<Rightarrow> bool \<Rightarrow> jsnum \<Rightarrow> jsnum \<Rightarrow> jsnum \<Rightarrow>
   candidate list \<Rightarrow> candidate list" where
  "push_candidate x y w h obj cls normalized inputWidth inputHeight scoreThreshold candidates =
     (let score = js_mul obj cls in
      if js_lt score scoreThreshold then candidates
      else
        (let scaleX = (if normalized then inputWidth else Num 1);
             scaleY = (if normalized then inputHeight else Num 1);
             cx = js_mul x scaleX;
             cy = js_mul y scaleY;
             bw = js_mul w scaleX;
             bh = js_mul h scaleY
         in candidates @
            [\<lparr>box = [js_sub cx (js_div bw (Num 2)), js_sub cy (js_div bh (Num 2)),
                     js_add cx (js_div bw (Num 2)), js_add cy (js_div bh (Num 2))],
              score = score\<rparr>]))"

text \<open>The branch \<open>dims[2] <= 10\<close>: one row of \<open>channels\<close> numbers per box.\<close>

definition maxCoord_boxes_first :: "jsnum list \<Rightarrow> nat \<Rightarrow> nat \<Rightarrow> jsnum" where
  "maxCoord_boxes_first d boxes channels =
     fold (\<lambda>i maxCoord.
             (let base = i * channels
              in max_abs4 maxCoord (elem d base) (elem d (base + 1))
                   (elem d (base + 2)) (elem d (base + 3))))
          [0..<min boxes 50] (Num 0)"

definition candidates_boxes_first ::
  "jsnum list \<Rightarrow> nat \<Rightarrow> nat \<Rightarrow> jsnum \<Rightarrow> jsnum \<Rightarrow> jsnum \<Rightarrow> candidate list" where
  "candidates_boxes_first d boxes channels inputWidth inputHeight scoreThreshold =
     (let normalized = js_le (maxCoord_boxes_first d boxes channels) (Num (3 / 2))
      in fold (\<lambda>i candidates.
                 (let base = i * channels;
                      x = elem d base;
                      y = elem d (base + 1);
                      w = elem d (base + 2);
                      h = elem d (base + 3);
                      obj = (if channels > 4 then sigmoid (elem d (base + 4)) else Num 1);
                      cls = (if channels > 5 then sigmoid (elem d (base + 5)) else Num 1)
                  in push_candidate x y w h obj cls normalized inputWidth inputHeight
                       scoreThreshold candidates))
              [0..<boxes] [])"

text \<open>The other branch: one row of \<open>boxes\<close> numbers per channel.\<close>

definition maxCoord_channels_first :: "jsnum list \<Rightarrow> nat \<Rightarrow> jsnum" where
  "maxCoord_channels_first d boxes =
     fold (\<lambda>i maxCoord.
             max_abs4 maxCoord (elem d i) (elem d (i + boxes))
               (elem d (i + 2 * boxes)) (elem d (i + 3 * boxes)))
          [0..<min boxes 50] (Num 0)"

definition candidates_channels_first ::
  "jsnum list \<Rightarrow> nat \<Rightarrow> nat \<Rightarrow> jsnum \<Rightarrow> jsnum \<Rightarrow> jsnum \<Rightarrow> candidate list" where
  "candidates_channels_first d channels boxes inputWidth inputHeight scoreThreshold =
     (let normalized = js_le (maxCoord_channels_first d boxes) (Num (3 / 2))
      in fold (\<lambda>i candidates.
                 (let x = elem d i;
                      y = elem d (i + boxes);
                      w = elem d (i + 2 * boxes);
                      h = elem d (i + 3 * boxes);
                      obj = (if channels > 4 then sigmoid (elem d (i + 4 * boxes)) else Num 1);
                      cls = (if channels > 5 then sigmoid (elem d (i + 5 * boxes)) else Num 1)
                  in push_candidate x y w h obj cls normalized inputWidth inputHeight
                       scoreThreshold candidates))
              [0..<boxes] [])"

text \<open>
  \<open>parseDetectorOutput\<close>. An output that is not three-dimensional gives the empty
  list at once; the suppression threshold is the literal \<open>0.4\<close>.
\<close>

definition parseDetectorOutput ::
  "tensor \<Rightarrow> jsnum \<Rightarrow> jsnum \<Rightarrow> jsnum \<Rightarrow> candidate list" where
  "parseDetectorOutput output inputWidth inputHeight scoreThreshold =
     (if length (dims output) \<noteq> 3 then []
      else if dims output ! 2 \<le> 10 then
        nms (candidates_boxes_first (data output) (dims output ! 1) (dims output ! 2)
               inputWidth inputHeight scoreThreshold) (Num (2 / 5))
      else
        nms (candidates_channels_first (data output) (dims output ! 1) (dims output ! 2)
               inputWidth inputHeight scoreThreshold) (Num (2 / 5)))"

text \<open>
  The same numbers in the other layout, in the specification's words: the number of
  box \<open>i\<close> and channel \<open>c\<close>, at index \<open>i * C + c\<close> of a boxes-first buffer of \<open>N\<close>
  boxes and \<open>C\<close> channels, stands at index \<open>c * N + i\<close> of the channels-first buffer.
\<close>

definition transpose_spec :: "nat \<Rightarrow> nat \<Rightarrow> jsnum list \<Rightarrow> jsnum list" where
  "transpose_spec N C d = map (\<lambda>k. elem d ((k mod N) * C + k div N)) [0..<N * C]"

section \<open>Letterbox preprocessing and its inverse\<close>

text \<open>
  The geometry that \<open>prepareDetectorInput\<close> and \<open>prepareOcrInput\<close> both compute before
  they draw: \<open>scale\<close>, \<open>scaledWidth\<close>, \<open>scaledHeight\<close>, \<open>padX\<close> and \<open>padY\<close>, each a
  function of the image's size (\<open>image.width\<close> and \<open>image.height\<close> are unsigned
  integers) and of the target size. The two quotients and the two products are
  rounded to binary64, as the code computes them: \<open>Math.round\<close> of a product that is a
  half-integer in exact arithmetic depends on it. The differences and halvings of the
  paddings are on integers and exact. The pixels the canvas resamples are outside the
  model.
\<close>

definition lb_scale :: "nat \<Rightarrow> nat \<Rightarrow> jsnum \<Rightarrow> jsnum \<Rightarrow> jsnum" where
  "lb_scale imageWidth imageHeight width height =
     js_min (f64 (js_div width (Num (real imageWidth))))
            (f64 (js_div height (Num (real imageHeight))))"

definition lb_scaledWidth :: "nat \<Rightarrow> nat \<Rightarrow> jsnum \<Rightarrow> jsnum \<Rightarrow> jsnum" where
  "lb_scaledWidth imageWidth imageHeight width height =
     js_round (f64 (js_mul (Num (real imageWidth))
                      (lb_scale imageWidth imageHeight width height)))"

definition lb_scaledHeight :: "nat \<Rightarrow> nat \<Rightarrow> jsnum \<Rightarrow> jsnum \<Rightarrow> jsnum" where
  "lb_scaledHeight imageWidth imageHeight width height =
     js_round (f64 (js_mul (Num (real imageHeight))
                      (lb_scale imageWidth imageHeight width height)))"

definition lb_padX :: "nat \<Rightarrow> nat \<Rightarrow> jsnum \<Rightarrow> jsnum \<Rightarrow> jsnum" where
  "lb_padX imageWidth imageHeight width height =
     js_floor (js_div (js_sub width (lb_scaledWidth imageWidth imageHeight width height))
                 (Num 2))"

definition lb_padY :: "nat \<Rightarrow> nat \<Rightarrow> jsnum \<Rightarrow> jsnum \<Rightarrow> jsnum" where
  "lb_padY imageWidth imageHeight width height =
     js_floor (js_div (js_sub height (lb_scaledHeight imageWidth imageHeight width height))
                 (Num 2))"

datatype tensor_type = Uint8 | Float32

text \<open>
  What \<open>prepareDetectorInput\<close> returns, without the pixel buffer \<open>input\<close>. The first
  argument says whether \<open>canvas.getContext("2d")\<close> gave a context; without one the
  function returns \<open>null\<close>.
\<close>

record prepared =
  tensorType :: tensor_type
  scale :: jsnum
  padX :: jsnum
  padY :: jsnum
  width :: jsnum
  height :: jsnum

definition prepareDetectorInput ::
  "bool \<Rightarrow> nat \<Rightarrow> nat \<Rightarrow> jsnum \<Rightarrow> jsnum \<Rightarrow> bool \<Rightarrow> prepared option" where
  "prepareDetectorInput ctx imageWidth imageHeight w h useUint8 =
     (if \<not> ctx then None
      else Some \<lparr>tensorType = (if useUint8 then Uint8 else Float32),
                  scale = lb_scale imageWidth imageHeight w h,
                  padX = lb_padX imageWidth imageHeight w h,
                  padY = lb_padY imageWidth imageHeight w h,
                  width = w,
                  height = h\<rparr>)"

text \<open>\<^verbatim>\<open>const OCR_INPUT = { width: 140, height: 70, maxSlots: 9 };\<close>\<close>

definition OCR_INPUT_width :: nat where
  "OCR_INPUT_width = 140"

definition OCR_INPUT_height :: nat where
  "OCR_INPUT_height = 70"

definition OCR_INPUT_maxSlots :: nat where
  "OCR_INPUT_maxSlots = 9"

text \<open>
  \<open>prepareOcrInput\<close> computes the same geometry for the fixed target
  \<open>OCR_INPUT.width \<times> OCR_INPUT.height\<close> and returns the buffer with the shape
  \<open>[1, targetHeight, targetWidth, 1]\<close>; the model keeps the shape.
\<close>

definition prepareOcrInput :: "bool \<Rightarrow> nat list option" where
  "prepareOcrInput ctx =
     (if \<not> ctx then None else Some [1, OCR_INPUT_height, OCR_INPUT_width, 1])"

definition ocr_scaledWidth :: "nat \<Rightarrow> nat \<Rightarrow> jsnum" where
  "ocr_scaledWidth imageWidth imageHeight =
     lb_scaledWidth imageWidth imageHeight
       (Num (real OCR_INPUT_width)) (Num (real OCR_INPUT_height))"

definition ocr_scaledHeight :: "nat \<Rightarrow> nat \<Rightarrow> jsnum" where
  "ocr_scaledHeight imageWidth imageHeight =
     lb_scaledHeight imageWidth imageHeight
       (Num (real OCR_INPUT_width)) (Num (real OCR_INPUT_height))"

definition ocr_padX :: "nat \<Rightarrow> nat \<Rightarrow> jsnum" where
  "ocr_padX imageWidth imageHeight =
     lb_padX imageWidth imageHeight
       (Num (real OCR_INPUT_width)) (Num (real OCR_INPUT_height))"

definition ocr_padY :: "nat \<Rightarrow> nat \<Rightarrow> jsnum" where
  "ocr_padY imageWidth imageHeight =
     lb_padY imageWidth imageHeight
       (Num (real OCR_INPUT_width)) (Num (real OCR_INPUT_height))"

text \<open>
  The inverse mapping of \<open>handleDetectPlate\<close>: the rectangle \<open>[x1, y1, x2, y2]\<close> it
  hands to \<open>cropPlate\<close>, from the best detection's box and the record
  \<open>prepareDetectorInput\<close> returned.
\<close>

definition cropRect :: "jsnum list \<Rightarrow> prepared \<Rightarrow> nat \<Rightarrow> nat \<Rightarrow> jsnum list" where
  "cropRect bestBox p imageWidth imageHeight =
     [js_max (Num 0) (js_div (js_sub (elem bestBox 0) (padX p)) (scale p)),
      js_max (Num 0) (js_div (js_sub (elem bestBox 1) (padY p)) (scale p)),
      js_min (Num (real imageWidth)) (js_div (js_sub (elem bestBox 2) (padX p)) (scale p)),
      js_min (Num (real imageHeight)) (js_div (js_sub (elem bestBox 3) (padY p)) (scale p))]"

text \<open>
  The forward mapping is not a function of the source (the canvas does it when it
  draws). This definition follows the specification's words: multiply by the scale,
  add the padding.
\<close>

definition forward_spec :: "prepared \<Rightarrow> jsnum list \<Rightarrow> jsnum list" where
  "forward_spec p r =
     [js_add (js_mul (elem r 0) (scale p)) (padX p),
      js_add (js_mul (elem r 1) (scale p)) (padY p),
      js_add (js_mul (elem r 2) (scale p)) (padX p),
      js_add (js_mul (elem r 3) (scale p)) (padY p)]"

text \<open>The distance of two numbers is at most \<open>e\<close>; false when either is not finite.\<close>

fun js_within :: "real \<Rightarrow> jsnum \<Rightarrow> jsnum \<Rightarrow> bool" where
  "js_within e (Num a) (Num b) = (\<bar>a - b\<bar> \<le> e)"
| "js_within e _ _ = False"

section \<open>Decoding the character grid\<close>

definition OCR_ALPHABET :: string where
  "OCR_ALPHABET = ''0123456789ABCDEFGHIJKLMNOPQRSTUVWXYZ_''"

definition OCR_PAD :: string where
  "OCR_PAD = ''_''"

datatype layout = SlotsFirst | ClassesFirst

text \<open>
  The head of \<open>decodeOcrOutput\<close>: the slot count and the layout read from the shape.
  The class count is always the alphabet's length.
\<close>

definition ocr_classes :: nat where
  "ocr_classes = length OCR_ALPHABET"

definition ocr_slots :: "nat list \<Rightarrow> nat" where
  "ocr_slots ds =
     (if length ds = 3 then
        (if ds ! 2 = ocr_classes then ds ! 1
         else if ds ! 1 = ocr_classes then ds ! 2
         else OCR_INPUT_maxSlots)
      else OCR_INPUT_maxSlots)"

definition ocr_layout :: "nat list \<Rightarrow> layout" where
  "ocr_layout ds =
     (if length ds = 3 then
        (if ds ! 2 = ocr_classes then SlotsFirst
         else if ds ! 1 = ocr_classes then ClassesFirst
         else SlotsFirst)
      else SlotsFirst)"

text \<open>The index \<open>idx\<close> of both inner loops.\<close>

definition ocr_idx :: "layout \<Rightarrow> nat \<Rightarrow> nat \<Rightarrow> nat \<Rightarrow> nat \<Rightarrow> nat" where
  "ocr_idx l slots classes slot cls =
     (case l of SlotsFirst \<Rightarrow> slot * classes + cls | ClassesFirst \<Rightarrow> cls * slots + slot)"

text \<open>\<^verbatim>\<open>data[idx]\<close>, the raw score of class \<open>cls\<close> in slot \<open>slot\<close>.\<close>

definition ocr_read :: "jsnum list \<Rightarrow> layout \<Rightarrow> nat \<Rightarrow> nat \<Rightarrow> nat \<Rightarrow> nat \<Rightarrow> jsnum" where
  "ocr_read d l slots classes slot cls = elem d (ocr_idx l slots classes slot cls)"

text \<open>The first inner loop: \<open>(maxVal, maxIdx)\<close>, from \<open>(-Infinity, 0)\<close>.\<close>

definition ocr_argmax :: "jsnum list \<Rightarrow> layout \<Rightarrow> nat \<Rightarrow> nat \<Rightarrow> nat \<Rightarrow> jsnum \<times> nat" where
  "ocr_argmax d l slots classes slot =
     fold (\<lambda>cls (maxVal, maxIdx).
             (let v = ocr_read d l slots classes slot cls
              in if js_gt v maxVal then (v, cls) else (maxVal, maxIdx)))
          [0..<classes] (NegInf, 0)"

text \<open>The second inner loop: \<open>expSum\<close>.\<close>

definition ocr_expSum :: "jsnum list \<Rightarrow> layout \<Rightarrow> nat \<Rightarrow> nat \<Rightarrow> nat \<Rightarrow> jsnum \<Rightarrow> jsnum" where
  "ocr_expSum d l slots classes slot maxVal =
     fold (\<lambda>cls expSum.
             js_add expSum (js_exp (js_sub (ocr_read d l slots classes slot cls) maxVal)))
          [0..<classes] (Num 0)"

text \<open>\<^verbatim>\<open>const confidence = expSum ? 1 / expSum : 0;\<close>\<close>

definition slot_confidence :: "jsnum list \<Rightarrow> layout \<Rightarrow> nat \<Rightarrow> nat \<Rightarrow> nat \<Rightarrow> jsnum" where
  "slot_confidence d l slots classes slot =
     (let expSum = ocr_expSum d l slots classes slot
                     (fst (ocr_argmax d l slots classes slot))
      in if js_truthy expSum then js_div (Num 1) expSum else Num 0)"

text \<open>\<^verbatim>\<open>const char = OCR_ALPHABET[maxIdx] ?? "";\<close>\<close>

definition slot_char :: "jsnum list \<Rightarrow> layout \<Rightarrow> nat \<Rightarrow> nat \<Rightarrow> nat \<Rightarrow> string" where
  "slot_char d l slots classes slot =
     (let maxIdx = snd (ocr_argmax d l slots classes slot)
      in if maxIdx < length OCR_ALPHABET then [OCR_ALPHABET ! maxIdx] else [])"

text \<open>The result \<open>{ text, confidence }\<close>; \<open>null\<close> is \<open>None\<close>.\<close>

record decoded =
  dtext :: string
  confidence :: "jsnum option"

text \<open>The loop over the slots, on the pair \<open>(text, confidenceSum)\<close>.\<close>

definition ocr_loop :: "jsnum list \<Rightarrow> layout \<Rightarrow> nat \<Rightarrow> nat \<Rightarrow> string \<times> jsnum" where
  "ocr_loop d l slots classes =
     fold (\<lambda>slot (txt, confidenceSum).
             (let c = slot_char d l slots classes slot
              in (if c \<noteq> OCR_PAD then txt @ c else txt,
                  js_add confidenceSum (slot_confidence d l slots classes slot))))
          [0..<slots] ([], Num 0)"

definition decodeOcrOutput :: "tensor \<Rightarrow> decoded" where
  "decodeOcrOutput output =
     (let slots = ocr_slots (dims output);
          classes = ocr_classes;
          l = ocr_layout (dims output);
          (txt, confidenceSum) = ocr_loop (data output) l slots classes
      in \<lparr>dtext = txt,
          confidence =
            (if slots \<noteq> 0
             then Some (js_mul (js_div confidenceSum (Num (real slots))) (Num 100))
             else None)\<rparr>)"


fun the_num :: "jsnum \<Rightarrow> real" where
  "the_num (Num a) = a"
| "the_num _ = 0"



section \<open>Extracting the plate from the decoded text\<close>

text \<open>
  Strings are lists of 8-bit characters, read as ASCII: \<open>toUpperCase\<close> maps \<open>a\<close>-\<open>z\<close>
  (codes 97 to 122) to \<open>A\<close>-\<open>Z\<close> (65 to 90) and leaves every other character. The
  classes of the regular expressions: \<open>[A-Z]\<close>, \<open>\d\<close> (48 to 57), \<open>[A-Z0-9]\<close> and the
  ASCII characters of \<open>\s\<close>.
\<close>

definition is_AZ :: "char \<Rightarrow> bool" where
  "is_AZ c = (65 \<le> (of_char c :: nat) \<and> (of_char c :: nat) \<le> 90)"

definition is_digit :: "char \<Rightarrow> bool" where
  "is_digit c = (48 \<le> (of_char c :: nat) \<and> (of_char c :: nat) \<le> 57)"

definition is_alnum :: "char \<Rightarrow> bool" where
  "is_alnum c = (is_AZ c \<or> is_digit c)"

definition is_space :: "char \<Rightarrow> bool" where
  "is_space c = ((of_char c :: nat) \<in> {9, 10, 11, 12, 13, 32})"

definition to_upper :: "char \<Rightarrow> char" where
  "to_upper c =
     (if 97 \<le> (of_char c :: nat) \<and> (of_char c :: nat) \<le> 122
      then char_of ((of_char c :: nat) - 32) else c)"

definition toUpperCase :: "string \<Rightarrow> string" where
  "toUpperCase s = map to_upper s"

text \<open>\<^verbatim>\<open>value.toUpperCase().replace(/[^A-Z0-9]/g, "")\<close>\<close>

definition normalizePlate :: "string \<Rightarrow> string" where
  "normalizePlate v = filter is_alnum (toUpperCase v)"

text \<open>\<^verbatim>\<open>rawText.toUpperCase().replace(/[^A-Z0-9]/g, " ")\<close>\<close>

definition cleaned :: "string \<Rightarrow> string" where
  "cleaned rawText = map (\<lambda>c. if is_alnum c then c else CHR '' '') (toUpperCase rawText)"

text \<open>\<^verbatim>\<open>cleaned.replace(/\s+/g, "")\<close>\<close>

definition condensed :: "string \<Rightarrow> string" where
  "condensed rawText = filter (\<lambda>c. \<not> is_space c) (cleaned rawText)"

text \<open>
  \<^verbatim>\<open>s.match(/[A-Z]{2}\d{2}[A-Z]{3}/)\<close>: the pattern is tried at each position from the
  left; \<open>strict_at\<close> is the pattern at the head of the string.
\<close>

fun strict_at :: "string \<Rightarrow> bool" where
  "strict_at (a # b # c # d # e # f # g # _) =
     (is_AZ a \<and> is_AZ b \<and> is_digit c \<and> is_digit d \<and> is_AZ e \<and> is_AZ f \<and> is_AZ g)"
| "strict_at _ = False"

fun match_strict :: "string \<Rightarrow> string option" where
  "match_strict [] = None"
| "match_strict (c # cs) =
     (if strict_at (c # cs) then Some (take 7 (c # cs)) else match_strict cs)"

text \<open>
  \<^verbatim>\<open>s.match(/[A-Z0-9]{5,8}/)\<close>: at a position the greedy quantifier takes up to eight
  characters of the class and needs five.
\<close>

definition loose_at :: "string \<Rightarrow> string option" where
  "loose_at s =
     (let r = takeWhile is_alnum (take 8 s) in if 5 \<le> length r then Some r else None)"

fun match_loose :: "string \<Rightarrow> string option" where
  "match_loose [] = None"
| "match_loose (c # cs) =
     (case loose_at (c # cs) of Some m \<Rightarrow> Some m | None \<Rightarrow> match_loose cs)"

text \<open>
  \<^verbatim>\<open>s.split(/\s+/)\<close>: the pieces between the maximal runs of white space, an empty
  piece before a leading run and after a trailing one. The first argument is the piece
  being read.
\<close>

function split_ws :: "string \<Rightarrow> string \<Rightarrow> string list" where
  "split_ws cur [] = [cur]"
| "split_ws cur (c # cs) =
     (if is_space c then cur # split_ws [] (dropWhile is_space cs)
      else split_ws (cur @ [c]) cs)"
  by pat_completeness auto
termination
  by (relation "measure (\<lambda>(cur, s). length s)")
     (auto simp: length_dropWhile_le less_Suc_eq_le)

text \<open>\<^verbatim>\<open>/^[A-Z]{2}\d{2}[A-Z]{3}$/.test(t)\<close> and \<^verbatim>\<open>/^[A-Z0-9]{5,8}$/.test(t)\<close>\<close>

definition test_strict :: "string \<Rightarrow> bool" where
  "test_strict t = (length t = 7 \<and> strict_at t)"

definition test_loose :: "string \<Rightarrow> bool" where
  "test_loose t = (5 \<le> length t \<and> length t \<le> 8 \<and> list_all is_alnum t)"

text \<open>\<^verbatim>\<open>cleaned.split(/\s+/).filter(Boolean)\<close>\<close>

definition candidates :: "string \<Rightarrow> string list" where
  "candidates rawText = filter (\<lambda>t. t \<noteq> []) (split_ws [] (cleaned rawText))"

definition extractPlate :: "string \<Rightarrow> string" where
  "extractPlate rawText =
     (case match_strict (condensed rawText) of
        Some strict \<Rightarrow> strict
      | None \<Rightarrow>
          (case match_loose (condensed rawText) of
             Some loose \<Rightarrow> loose
           | None \<Rightarrow>
               (case find test_strict (candidates rawText) of
                  Some t \<Rightarrow> t
                | None \<Rightarrow>
                    (case find test_loose (candidates rawText) of
                       Some t \<Rightarrow> t
                     | None \<Rightarrow> []))))"

text \<open>
  The shapes in the specification's words: a string of exactly two letters, two
  digits and three letters, and a string of five to eight letters or digits.
\<close>

definition strict_shape :: "string \<Rightarrow> bool" where
  "strict_shape m =
     (length m = 7 \<and> is_AZ (m ! 0) \<and> is_AZ (m ! 1) \<and> is_digit (m ! 2) \<and> is_digit (m ! 3)
      \<and> is_AZ (m ! 4) \<and> is_AZ (m ! 5) \<and> is_AZ (m ! 6))"

definition loose_shape :: "string \<Rightarrow> bool" where
  "loose_shape m = (5 \<le> length m \<and> length m \<le> 8 \<and> (\<forall>i < length m. is_alnum (m ! i)))"

definition occurs_at :: "string \<Rightarrow> nat \<Rightarrow> string \<Rightarrow> bool" where
  "occurs_at m i s = (i + length m \<le> length s \<and> take (length m) (drop i s) = m)"

section \<open>The scan attempt and its timeout\<close>

text \<open>
  The part of the page's state that \<open>handleDetectPlate\<close>, \<open>runOcr\<close> and the timeout
  callback read and write: the React state (\<open>ocrStatus\<close>, \<open>ocrError\<close>,
  \<open>ocrConfidence\<close>, \<open>detectedPlate\<close>, \<open>plateInput\<close>, \<open>cameraReady\<close>), the reference
  \<open>ocrTimeoutRef.current\<close>, and the browser's side: the clock \<open>now\<close> in milliseconds,
  the timeouts that are set and have neither fired nor been cleared, each with its
  identifier and the time it is due, and the next identifier \<open>window.setTimeout\<close>
  returns. \<open>phase\<close> is the point the asynchronous attempt has reached.
\<close>

datatype status = Idle | Loading | Success | Error

datatype phase = NotRunning | Detecting | Recognising

record page =
  ocrStatus :: status
  ocrError :: "string option"
  ocrConfidence :: "jsnum option"
  detectedPlate :: "string option"
  plateInput :: string
  cameraReady :: bool
  ocrTimeoutRef :: "nat option"
  pendingTimers :: "(nat \<times> nat) list"
  nextTimerId :: nat
  now :: nat
  phase :: phase

text \<open>\<^verbatim>\<open>window.clearTimeout(id)\<close>\<close>

definition clearTimeout :: "nat \<Rightarrow> page \<Rightarrow> page" where
  "clearTimeout t s = s\<lparr>pendingTimers := filter (\<lambda>(i, due). i \<noteq> t) (pendingTimers s)\<rparr>"

definition clearOcrTimeout :: "page \<Rightarrow> page" where
  "clearOcrTimeout s =
     (case ocrTimeoutRef s of
        None \<Rightarrow> s
      | Some t \<Rightarrow> (clearTimeout t s)\<lparr>ocrTimeoutRef := None\<rparr>)"

text \<open>The callback handed to \<open>window.setTimeout\<close> by \<open>handleDetectPlate\<close>.\<close>

definition timeoutCallback :: "page \<Rightarrow> page" where
  "timeoutCallback s =
     s\<lparr>ocrStatus := Error, ocrError := Some ''Scan timed out. Please try again.''\<rparr>"

text \<open>\<^verbatim>\<open>ocrTimeoutRef.current = window.setTimeout(callback, delay)\<close>\<close>

definition setOcrTimeout :: "nat \<Rightarrow> page \<Rightarrow> page" where
  "setOcrTimeout delay s =
     s\<lparr>ocrTimeoutRef := Some (nextTimerId s),
       pendingTimers := (nextTimerId s, now s + delay) # pendingTimers s,
       nextTimerId := Suc (nextTimerId s)\<rparr>"

text \<open>\<open>String.prototype.trim\<close> on ASCII white space.\<close>

definition js_trim :: "string \<Rightarrow> string" where
  "js_trim s = rev (dropWhile is_space (rev (dropWhile is_space s)))"

text \<open>
  \<open>handleDetectPlate\<close> up to its first \<open>await\<close> inside the \<open>try\<close> block: the guards,
  the manual plate, and the arming of the timeout, \<open>15000\<close> milliseconds ahead. The
  argument says whether \<open>captureFrame\<close> gave a snapshot.
\<close>

definition handleDetectPlate_start :: "bool \<Rightarrow> page \<Rightarrow> page" where
  "handleDetectPlate_start snapshot s =
     (if ocrStatus s = Loading then s
      else if \<not> cameraReady s then s
      else
        (let trimmed = normalizePlate (js_trim (plateInput s)) in
         if trimmed \<noteq> [] then s\<lparr>detectedPlate := Some trimmed, plateInput := trimmed\<rparr>
         else if snapshot then
           (setOcrTimeout 15000 (clearOcrTimeout (s\<lparr>ocrStatus := Loading, ocrError := None\<rparr>)))
             \<lparr>cameraReady := False, phase := Detecting\<rparr>
         else s))"

text \<open>
  The clock moves to \<open>t\<close>: the browser takes the timers that are due off its list
  and runs their callbacks. Every timer of this model carries the callback above.
\<close>

definition is_due :: "nat \<Rightarrow> nat \<times> nat \<Rightarrow> bool" where
  "is_due t timer = (snd timer \<le> t)"

definition advance :: "nat \<Rightarrow> page \<Rightarrow> page" where
  "advance t s =
     fold (\<lambda>timer. timeoutCallback) (filter (is_due t) (pendingTimers s))
       (s\<lparr>now := t, pendingTimers := filter (\<lambda>timer. \<not> is_due t timer) (pendingTimers s)\<rparr>)"

text \<open>
  What can happen next. \<open>Elapse ms\<close>: that many milliseconds pass. \<open>DetectionFailed
  msg\<close>: a step of the \<open>try\<close> block before \<open>runOcr\<close> throws (the \<open>catch\<close> block of
  \<open>handleDetectPlate\<close>). \<open>OcrStarted\<close>: detection and cropping are done and \<open>runOcr\<close> is
  entered. \<open>OcrFailed msg\<close>: a step of \<open>runOcr\<close> throws (its \<open>catch\<close> block). \<open>OcrDone d\<close>:
  the OCR session returns and its output decodes to \<open>d\<close>; \<open>runOcr\<close> finishes and
  \<open>handleDetectPlate\<close> takes its result. The events of the attempt take effect only at
  the point of the attempt they belong to.
\<close>

datatype event =
  Elapse nat
| DetectionFailed string
| OcrStarted
| OcrFailed string
| OcrDone decoded

fun step :: "event \<Rightarrow> page \<Rightarrow> page" where
  "step (Elapse ms) s = advance (now s + ms) s"
| "step (DetectionFailed msg) s =
     (if phase s = Detecting
      then (clearOcrTimeout (s\<lparr>ocrStatus := Error, ocrError := Some msg\<rparr>))
             \<lparr>phase := NotRunning\<rparr>
      else s)"
| "step OcrStarted s =
     (if phase s = Detecting
      then s\<lparr>ocrStatus := Loading, ocrError := None, ocrConfidence := None,
             phase := Recognising\<rparr>
      else s)"
| "step (OcrFailed msg) s =
     (if phase s = Recognising
      then (clearOcrTimeout (s\<lparr>ocrStatus := Error, ocrError := Some msg\<rparr>))
             \<lparr>phase := NotRunning\<rparr>
      else s)"
| "step (OcrDone d) s =
     (if phase s = Recognising then
        (let plate = extractPlate (dtext d) in
         if plate = [] then
           (clearOcrTimeout
              (s\<lparr>ocrStatus := Error,
                 ocrError := Some ''No plate detected. Try again with a clearer shot.''\<rparr>))
             \<lparr>phase := NotRunning\<rparr>
         else
           (let s' = clearOcrTimeout (s\<lparr>ocrStatus := Success, ocrConfidence := confidence d\<rparr>);
                ocrResult = normalizePlate plate
            in (if ocrResult \<noteq> []
                then s'\<lparr>detectedPlate := Some ocrResult, plateInput := ocrResult\<rparr>
                else s')\<lparr>phase := NotRunning\<rparr>))
      else s)"

definition run :: "event list \<Rightarrow> page \<Rightarrow> page" where
  "run es s = fold step es s"

definition initial_page :: page where
  "initial_page =
     \<lparr>ocrStatus = Idle, ocrError = None, ocrConfidence = None, detectedPlate = None,
      plateInput = [], cameraReady = True, ocrTimeoutRef = None, pendingTimers = [],
      nextTimerId = 0, now = 0, phase = NotRunning\<rparr>"

section \<open>Properties of the numbers and of intersection over union\<close>

lemma elem_rbox:
  "elem (rbox x1 y1 x2 y2) 0 = Num x1"
  "elem (rbox x1 y1 x2 y2) 1 = Num y1"
  "elem (rbox x1 y1 x2 y2) (Suc 0) = Num y1"
  "elem (rbox x1 y1 x2 y2) 2 = Num x2"
  "elem (rbox x1 y1 x2 y2) 3 = Num y2"
  by (simp_all add: elem_def rbox_def)

lemma js_max_Num: "js_max (Num a) (Num b) = Num (max a b)"
  by (simp add: js_max_def max_def)

lemma js_min_Num: "js_min (Num a) (Num b) = Num (min a b)"
  by (simp add: js_min_def min_def)

lemma js_sub_Num: "js_sub (Num a) (Num b) = Num (a - b)"
  by (simp add: js_sub_def)

lemma interArea_rbox:
  "interArea (rbox a0 a1 a2 a3) (rbox b0 b1 b2 b3) =
     Num (max 0 (min a2 b2 - max a0 b0) * max 0 (min a3 b3 - max a1 b1))"
  by (simp add: interArea_def elem_rbox js_max_Num js_min_Num js_sub_Num)

lemma boxArea_rbox:
  "boxArea (rbox a0 a1 a2 a3) = Num (max 0 (a2 - a0) * max 0 (a3 - a1))"
  by (simp add: boxArea_def elem_rbox js_max_Num js_sub_Num)

lemma iou_rbox:
  "iou (rbox a0 a1 a2 a3) (rbox b0 b1 b2 b3) =
     (let i = max 0 (min a2 b2 - max a0 b0) * max 0 (min a3 b3 - max a1 b1);
          A = max 0 (a2 - a0) * max 0 (a3 - a1);
          B = max 0 (b2 - b0) * max 0 (b3 - b1)
      in Num (i / max 1 (A + B - i)))"
proof -
  have pos: "max 1 r \<noteq> 0" for r :: real
    by (simp add: max_def)
  show ?thesis
    by (simp add: iou_def interArea_rbox boxArea_rbox js_max_Num js_sub_Num Let_def pos)
qed

text \<open>
  Claim C5, as the code has it. For boxes with finite coordinates \<open>iou\<close> is the area of
  the overlap divided by the area of the union, the union taken as at least \<open>1\<close>. A
  pair whose overlap has area zero scores \<open>0\<close>, and so does every pair with a box of
  zero area. A box with \<open>x1 < x2\<close> and \<open>y1 < y2\<close> scores \<open>1\<close> against itself when its
  area is at least \<open>1\<close>; when its area is below \<open>1\<close> the floor on the union makes the
  score the area itself.
\<close>

theorem iou_overlap_over_union:
  "iou (rbox a0 a1 a2 a3) (rbox b0 b1 b2 b3) =
     Num ((max 0 (min a2 b2 - max a0 b0) * max 0 (min a3 b3 - max a1 b1)) /
          max 1 (max 0 (a2 - a0) * max 0 (a3 - a1) + max 0 (b2 - b0) * max 0 (b3 - b1)
                 - max 0 (min a2 b2 - max a0 b0) * max 0 (min a3 b3 - max a1 b1)))
   \<and> (interArea (rbox a0 a1 a2 a3) (rbox b0 b1 b2 b3) = Num 0
        \<longrightarrow> iou (rbox a0 a1 a2 a3) (rbox b0 b1 b2 b3) = Num 0)
   \<and> (a2 \<le> a0 \<or> a3 \<le> a1 \<longrightarrow> iou (rbox a0 a1 a2 a3) (rbox b0 b1 b2 b3) = Num 0)
   \<and> (a0 < a2 \<and> a1 < a3 \<and> 1 \<le> (a2 - a0) * (a3 - a1)
        \<longrightarrow> iou (rbox a0 a1 a2 a3) (rbox a0 a1 a2 a3) = Num 1)
   \<and> (a0 < a2 \<and> a1 < a3 \<and> (a2 - a0) * (a3 - a1) < 1
        \<longrightarrow> iou (rbox a0 a1 a2 a3) (rbox a0 a1 a2 a3) = Num ((a2 - a0) * (a3 - a1)))"
proof (intro conjI impI)
  show "iou (rbox a0 a1 a2 a3) (rbox b0 b1 b2 b3) =
     Num ((max 0 (min a2 b2 - max a0 b0) * max 0 (min a3 b3 - max a1 b1)) /
          max 1 (max 0 (a2 - a0) * max 0 (a3 - a1) + max 0 (b2 - b0) * max 0 (b3 - b1)
                 - max 0 (min a2 b2 - max a0 b0) * max 0 (min a3 b3 - max a1 b1)))"
    by (simp add: iou_rbox Let_def)
next
  assume "interArea (rbox a0 a1 a2 a3) (rbox b0 b1 b2 b3) = Num 0"
  then show "iou (rbox a0 a1 a2 a3) (rbox b0 b1 b2 b3) = Num 0"
    by (simp add: iou_rbox interArea_rbox Let_def)
next
  assume degenerate: "a2 \<le> a0 \<or> a3 \<le> a1"
  have "min a2 b2 - max a0 b0 \<le> 0 \<or> min a3 b3 - max a1 b1 \<le> 0"
    using degenerate by (auto simp: min_def max_def)
  then have "max 0 (min a2 b2 - max a0 b0) * max 0 (min a3 b3 - max a1 b1) = 0"
    by (auto simp: max_def)
  then show "iou (rbox a0 a1 a2 a3) (rbox b0 b1 b2 b3) = Num 0"
    by (simp add: iou_rbox Let_def)
next
  assume "a0 < a2 \<and> a1 < a3 \<and> 1 \<le> (a2 - a0) * (a3 - a1)"
  then show "iou (rbox a0 a1 a2 a3) (rbox a0 a1 a2 a3) = Num 1"
    by (simp add: iou_rbox Let_def max_def)
next
  assume "a0 < a2 \<and> a1 < a3 \<and> (a2 - a0) * (a3 - a1) < 1"
  then show "iou (rbox a0 a1 a2 a3) (rbox a0 a1 a2 a3) = Num ((a2 - a0) * (a3 - a1))"
    by (simp add: iou_rbox Let_def max_def)
qed

text \<open>
  The theorem at three inputs: the square of side \<open>2\<close> against itself, two unit
  squares far apart, and the square of side \<open>1/2\<close> against itself.
\<close>

theorem iou_overlap_over_union_witness:
  "iou (rbox 0 0 2 2) (rbox 0 0 2 2) = Num 1
   \<and> interArea (rbox 0 0 1 1) (rbox 5 5 6 6) = Num 0
   \<and> iou (rbox 0 0 1 1) (rbox 5 5 6 6) = Num 0
   \<and> iou (rbox 0 0 (1 / 2) (1 / 2)) (rbox 0 0 (1 / 2) (1 / 2)) = Num (1 / 4)"
proof -
  have disjoint: "interArea (rbox 0 0 1 1) (rbox 5 5 6 6) = Num 0"
    by (simp add: interArea_rbox)
  show ?thesis
    using iou_overlap_over_union [of 0 0 2 2 0 0 2 2]
      iou_overlap_over_union [of 0 0 1 1 5 5 6 6]
      iou_overlap_over_union [of 0 0 "1 / 2" "1 / 2" 0 0 "1 / 2" "1 / 2"]
      disjoint
    by simp
qed

text \<open>
  Claim C5 as it is written fails: the box \<open>[0, 0, 0.5, 0.5]\<close> has \<open>x1 < x2\<close> and
  \<open>y1 < y2\<close>, and its score against itself is \<open>0.25\<close>, not \<open>1\<close>.
\<close>

theorem iou_self_counterexample:
  "(0 :: real) < 1 / 2
   \<and> iou [Num 0, Num 0, Num (1 / 2), Num (1 / 2)] [Num 0, Num 0, Num (1 / 2), Num (1 / 2)]
       = Num (1 / 4)
   \<and> Num (1 / 4) \<noteq> Num 1"
proof -
  have "iou (rbox 0 0 (1 / 2) (1 / 2)) (rbox 0 0 (1 / 2) (1 / 2)) = Num (1 / 4)"
    by (simp add: iou_rbox)
  then show ?thesis
    by (simp add: rbox_def)
qed

section \<open>Properties of non-maximum suppression\<close>

text \<open>The inner loop removes exactly the candidates that overlap the current one.\<close>

lemma suppress_take_drop:
  "k \<le> length xs \<Longrightarrow>
   suppress k cur t xs = filter (\<lambda>c. \<not> overlaps t cur c) (take k xs) @ drop k xs"
proof (induction k arbitrary: xs)
  case 0
  show ?case by simp
next
  case (Suc k)
  let ?keep = "\<lambda>c. \<not> overlaps t cur c"
  have k: "k < length xs" using Suc.prems by simp
  have split: "take (Suc k) xs = take k xs @ [xs ! k]"
    using k by (simp add: take_Suc_conv_app_nth)
  show ?case
  proof (cases "overlaps t cur (xs ! k)")
    case True
    have "suppress (Suc k) cur t xs = suppress k cur t (take k xs @ drop (Suc k) xs)"
      using True by simp
    also have "\<dots> = filter ?keep (take k (take k xs @ drop (Suc k) xs))
                      @ drop k (take k xs @ drop (Suc k) xs)"
      using k by (intro Suc.IH) simp
    also have "\<dots> = filter ?keep (take k xs) @ drop (Suc k) xs"
      using k by simp
    finally show ?thesis
      using True split by simp
  next
    case False
    have "suppress (Suc k) cur t xs = suppress k cur t xs"
      using False by simp
    also have "\<dots> = filter ?keep (take k xs) @ drop k xs"
      using k by (intro Suc.IH) simp
    also have "drop k xs = xs ! k # drop (Suc k) xs"
      using k by (simp add: Cons_nth_drop_Suc)
    finally show ?thesis
      using False split by simp
  qed
qed

lemma suppress_filter:
  "suppress (length xs) cur t xs = filter (\<lambda>c. \<not> overlaps t cur c) xs"
  by (simp add: suppress_take_drop)

lemma nms_loop_Cons:
  "nms_loop t (c # xs) sel = nms_loop t (filter (\<lambda>d. \<not> overlaps t c d) xs) (sel @ [c])"
  by (simp add: suppress_filter)

lemma nms_loop_sorted_wrt:
  "sorted_wrt Q (sel @ xs) \<Longrightarrow> sorted_wrt Q (nms_loop t xs sel)"
proof (induction t xs sel rule: nms_loop.induct)
  case (1 t sel)
  then show ?case by simp
next
  case (2 t c xs sel)
  let ?ys = "filter (\<lambda>d. \<not> overlaps t c d) xs"
  have "sorted_wrt Q ?ys"
    using "2.prems" by (simp add: sorted_wrt_append sorted_wrt_filter)
  then have "sorted_wrt Q ((sel @ [c]) @ ?ys)"
    using "2.prems" by (auto simp: sorted_wrt_append)
  then have "sorted_wrt Q (nms_loop t ?ys (sel @ [c]))"
    using "2.IH" by (simp only: suppress_filter)
  then show ?case
    by (simp only: nms_loop_Cons)
qed

lemma nms_loop_keeps:
  "sorted_wrt (\<lambda>a b. \<not> overlaps t a b) sel \<Longrightarrow>
   (\<forall>a \<in> set sel. \<forall>b \<in> set xs. \<not> overlaps t a b) \<Longrightarrow>
   sorted_wrt (\<lambda>a b. \<not> overlaps t a b) (nms_loop t xs sel)"
proof (induction t xs sel rule: nms_loop.induct)
  case (1 t sel)
  then show ?case by simp
next
  case (2 t c xs sel)
  let ?ys = "filter (\<lambda>d. \<not> overlaps t c d) xs"
  have a: "sorted_wrt (\<lambda>a b. \<not> overlaps t a b) (sel @ [c])"
    using "2.prems" by (simp add: sorted_wrt_append)
  have b: "\<forall>a \<in> set (sel @ [c]). \<forall>b \<in> set ?ys. \<not> overlaps t a b"
    using "2.prems" by simp
  have "sorted_wrt (\<lambda>a b. \<not> overlaps t a b) (nms_loop t ?ys (sel @ [c]))"
    using "2.IH" a b by (simp only: suppress_filter)
  then show ?case
    by (simp only: nms_loop_Cons)
qed

lemma nms_loop_fixed:
  "sorted_wrt (\<lambda>a b. \<not> overlaps t a b) xs \<Longrightarrow> nms_loop t xs sel = sel @ xs"
proof (induction t xs sel rule: nms_loop.induct)
  case (1 t sel)
  then show ?case by simp
next
  case (2 t c xs sel)
  have all: "filter (\<lambda>d. \<not> overlaps t c d) xs = xs"
    using "2.prems" by (simp add: filter_id_conv)
  have "sorted_wrt (\<lambda>a b. \<not> overlaps t a b) xs"
    using "2.prems" by simp
  then have "nms_loop t xs (sel @ [c]) = (sel @ [c]) @ xs"
    using "2.IH" all by (simp only: suppress_filter)
  then show ?case
    by (simp add: suppress_filter all)
qed

lemma set_nms_loop: "set (nms_loop t xs sel) \<subseteq> set sel \<union> set xs"
proof (induction t xs sel rule: nms_loop.induct)
  case (1 t sel)
  then show ?case by simp
next
  case (2 t c xs sel)
  let ?ys = "filter (\<lambda>d. \<not> overlaps t c d) xs"
  have "set (nms_loop t ?ys (sel @ [c])) \<subseteq> set (sel @ [c]) \<union> set ?ys"
    using "2.IH" by (simp only: suppress_filter)
  also have "\<dots> \<subseteq> set sel \<union> set (c # xs)"
    by auto
  finally show ?case
    by (simp only: nms_loop_Cons)
qed


lemma score_cmp_gt:
  "score a \<noteq> NaN \<Longrightarrow> score b \<noteq> NaN \<Longrightarrow>
   js_gt (score_cmp a b) (Num 0) = js_lt (score a) (score b)"
  by (cases "score a"; cases "score b") (auto simp: score_cmp_def js_gt_def js_sub_def)

lemma js_lt_asym: "js_lt x y \<Longrightarrow> \<not> js_lt y x"
  by (cases x; cases y) auto

lemma js_nlt_trans:
  "x \<noteq> NaN \<Longrightarrow> y \<noteq> NaN \<Longrightarrow> z \<noteq> NaN \<Longrightarrow> \<not> js_lt x y \<Longrightarrow> \<not> js_lt y z \<Longrightarrow> \<not> js_lt x z"
  by (cases x; cases y; cases z) auto

lemma set_insort_cmp: "set (insort_cmp x ys) = insert x (set ys)"
  by (induction ys) auto

lemma set_js_sort: "set (js_sort xs) = set xs"
  by (induction xs) (auto simp: js_sort_def set_insort_cmp)

lemma sorted_insort_cmp:
  assumes "score x \<noteq> NaN" "\<forall>y \<in> set ys. score y \<noteq> NaN"
    and "sorted_wrt (\<lambda>a b. \<not> js_lt (score a) (score b)) ys"
  shows "sorted_wrt (\<lambda>a b. \<not> js_lt (score a) (score b)) (insort_cmp x ys)"
  using assms
proof (induction ys)
  case Nil
  then show ?case by simp
next
  case (Cons y ys)
  show ?case
  proof (cases "js_lt (score x) (score y)")
    case True
    then have "insort_cmp x (y # ys) = y # insort_cmp x ys"
      using Cons.prems by (simp add: score_cmp_gt)
    moreover have "\<not> js_lt (score y) (score x)"
      using True by (rule js_lt_asym)
    moreover have "sorted_wrt (\<lambda>a b. \<not> js_lt (score a) (score b)) (insort_cmp x ys)"
      using Cons by simp
    ultimately show ?thesis
      using Cons.prems by (simp add: set_insort_cmp)
  next
    case False
    then have "insort_cmp x (y # ys) = x # y # ys"
      using Cons.prems by (simp add: score_cmp_gt)
    moreover have "\<not> js_lt (score x) (score z)" if "z \<in> set ys" for z
    proof -
      have "\<not> js_lt (score y) (score z)"
        using Cons.prems that by simp
      then show ?thesis
        using False Cons.prems that js_nlt_trans [of "score x" "score y" "score z"] by simp
    qed
    ultimately show ?thesis
      using Cons.prems False by simp
  qed
qed

lemma sorted_js_sort:
  "\<forall>x \<in> set xs. score x \<noteq> NaN \<Longrightarrow>
   sorted_wrt (\<lambda>a b. \<not> js_lt (score a) (score b)) (js_sort xs)"
proof (induction xs)
  case Nil
  show ?case by (simp add: js_sort_def)
next
  case (Cons x xs)
  have "sorted_wrt (\<lambda>a b. \<not> js_lt (score a) (score b)) (insort_cmp x (js_sort xs))"
    using Cons by (intro sorted_insort_cmp) (simp_all add: set_js_sort)
  then show ?case
    by (simp add: js_sort_def)
qed

lemma js_sort_fixed:
  "\<forall>x \<in> set xs. score x \<noteq> NaN \<Longrightarrow>
   sorted_wrt (\<lambda>a b. \<not> js_lt (score a) (score b)) xs \<Longrightarrow> js_sort xs = xs"
proof (induction xs)
  case Nil
  show ?case by (simp add: js_sort_def)
next
  case (Cons x xs)
  have "js_sort (x # xs) = insort_cmp x xs"
    using Cons by (simp add: js_sort_def)
  also have "\<dots> = x # xs"
    using Cons.prems by (cases xs) (simp_all add: score_cmp_gt)
  finally show ?case .
qed

lemma nms_twice:
  assumes "\<forall>c \<in> set cands. score c \<noteq> NaN"
  shows "nms (nms cands t) t = nms cands t"
proof -
  let ?R = "\<lambda>a b. \<not> js_lt (score a) (score b)"
  let ?K = "\<lambda>a b. \<not> overlaps t a b"
  let ?out = "nms_loop t (js_sort cands) []"
  have srt: "sorted_wrt ?R (js_sort cands)"
    using assms by (rule sorted_js_sort)
  have "sorted_wrt ?R ?out"
    using srt by (intro nms_loop_sorted_wrt) simp
  moreover have "\<forall>c \<in> set ?out. score c \<noteq> NaN"
    using set_nms_loop [of t "js_sort cands" "[]"] assms by (auto simp: set_js_sort)
  ultimately have "js_sort ?out = ?out"
    by (intro js_sort_fixed)
  moreover have "sorted_wrt ?K ?out"
    by (intro nms_loop_keeps) simp_all
  then have "nms_loop t ?out [] = ?out"
    using nms_loop_fixed [of t ?out "[]"] by simp
  ultimately show ?thesis
    by (simp add: nms_def)
qed

text \<open>
  Claim C4, amended: suppression is idempotent at the threshold \<open>0.4\<close>, for every list
  of candidates none of whose scores is NaN.
\<close>

theorem nms_idempotent:
  "\<forall>c \<in> set cands. score c \<noteq> NaN \<Longrightarrow>
   nms (nms cands (Num (2 / 5))) (Num (2 / 5)) = nms cands (Num (2 / 5))"
  by (rule nms_twice)

text \<open>
  Three candidates: the first two overlap with an intersection over union of \<open>81/119\<close>,
  the third is apart. The best of the overlapping pair and the third survive, in the
  order of their scores, and a second suppression changes nothing.
\<close>

theorem nms_idempotent_witness:
  "nms [\<lparr>box = rbox 0 0 10 10, score = Num (1 / 2)\<rparr>,
        \<lparr>box = rbox 1 1 11 11, score = Num (9 / 10)\<rparr>,
        \<lparr>box = rbox 50 50 60 60, score = Num (7 / 10)\<rparr>] (Num (2 / 5))
     = [\<lparr>box = rbox 1 1 11 11, score = Num (9 / 10)\<rparr>,
        \<lparr>box = rbox 50 50 60 60, score = Num (7 / 10)\<rparr>]
   \<and> nms (nms [\<lparr>box = rbox 0 0 10 10, score = Num (1 / 2)\<rparr>,
                \<lparr>box = rbox 1 1 11 11, score = Num (9 / 10)\<rparr>,
                \<lparr>box = rbox 50 50 60 60, score = Num (7 / 10)\<rparr>] (Num (2 / 5))) (Num (2 / 5))
     = [\<lparr>box = rbox 1 1 11 11, score = Num (9 / 10)\<rparr>,
        \<lparr>box = rbox 50 50 60 60, score = Num (7 / 10)\<rparr>]"
proof -
  let ?cs = "[\<lparr>box = rbox 0 0 10 10, score = Num (1 / 2)\<rparr>,
              \<lparr>box = rbox 1 1 11 11, score = Num (9 / 10)\<rparr>,
              \<lparr>box = rbox 50 50 60 60, score = Num (7 / 10)\<rparr>]"
  have numbers: "\<forall>c \<in> set ?cs. score c \<noteq> NaN"
    by simp
  have out: "nms ?cs (Num (2 / 5))
      = [\<lparr>box = rbox 1 1 11 11, score = Num (9 / 10)\<rparr>,
         \<lparr>box = rbox 50 50 60 60, score = Num (7 / 10)\<rparr>]"
    by (simp add: nms_def js_sort_def score_cmp_def js_gt_def js_sub_Num suppress_filter
        overlaps_def iou_rbox Let_def)
  show ?thesis
    using nms_idempotent [OF numbers] out by simp
qed

text \<open>
  The decoder of the detector's output lets a NaN score through: its test
  \<open>score < scoreThreshold\<close> is false for NaN.
\<close>

lemma push_candidate_NaN:
  "push_candidate (Num 5) (Num 5) (Num 10) (Num 10) NaN (Num 1) False (Num 640) (Num 640)
     (Num (3 / 10)) []
   = [\<lparr>box = rbox 0 0 10 10, score = NaN\<rparr>]"
  by (simp add: push_candidate_def Let_def js_sub_def rbox_def)

text \<open>
  Claim C4 as it is written fails for a list with a NaN score. Three candidates in
  this order: score \<open>1\<close>, score NaN on the same box, score \<open>2\<close> on a box apart. Every
  comparison with the NaN score gives NaN, so the sort leaves the three where they
  are; the first one suppresses the second, and the result has the scores \<open>1, 2\<close>.
  Sorting that result puts the score \<open>2\<close> first: the second suppression returns the
  scores \<open>2, 1\<close>.
\<close>

theorem nms_idempotent_counterexample:
  "nms [\<lparr>box = rbox 0 0 10 10, score = Num 1\<rparr>,
        \<lparr>box = rbox 0 0 10 10, score = NaN\<rparr>,
        \<lparr>box = rbox 50 50 60 60, score = Num 2\<rparr>] (Num (2 / 5))
     = [\<lparr>box = rbox 0 0 10 10, score = Num 1\<rparr>,
        \<lparr>box = rbox 50 50 60 60, score = Num 2\<rparr>]
   \<and> nms (nms [\<lparr>box = rbox 0 0 10 10, score = Num 1\<rparr>,
                \<lparr>box = rbox 0 0 10 10, score = NaN\<rparr>,
                \<lparr>box = rbox 50 50 60 60, score = Num 2\<rparr>] (Num (2 / 5))) (Num (2 / 5))
     = [\<lparr>box = rbox 50 50 60 60, score = Num 2\<rparr>,
        \<lparr>box = rbox 0 0 10 10, score = Num 1\<rparr>]
   \<and> nms (nms [\<lparr>box = rbox 0 0 10 10, score = Num 1\<rparr>,
                \<lparr>box = rbox 0 0 10 10, score = NaN\<rparr>,
                \<lparr>box = rbox 50 50 60 60, score = Num 2\<rparr>] (Num (2 / 5))) (Num (2 / 5))
     \<noteq> nms [\<lparr>box = rbox 0 0 10 10, score = Num 1\<rparr>,
             \<lparr>box = rbox 0 0 10 10, score = NaN\<rparr>,
             \<lparr>box = rbox 50 50 60 60, score = Num 2\<rparr>] (Num (2 / 5))"
proof -
  have once: "nms [\<lparr>box = rbox 0 0 10 10, score = Num 1\<rparr>,
        \<lparr>box = rbox 0 0 10 10, score = NaN\<rparr>,
        \<lparr>box = rbox 50 50 60 60, score = Num 2\<rparr>] (Num (2 / 5))
     = [\<lparr>box = rbox 0 0 10 10, score = Num 1\<rparr>,
        \<lparr>box = rbox 50 50 60 60, score = Num 2\<rparr>]"
    by (simp add: nms_def js_sort_def score_cmp_def js_gt_def js_sub_def suppress_filter
        overlaps_def iou_rbox Let_def)
  have twice: "nms [\<lparr>box = rbox 0 0 10 10, score = Num 1\<rparr>,
        \<lparr>box = rbox 50 50 60 60, score = Num 2\<rparr>] (Num (2 / 5))
     = [\<lparr>box = rbox 50 50 60 60, score = Num 2\<rparr>,
        \<lparr>box = rbox 0 0 10 10, score = Num 1\<rparr>]"
    by (simp add: nms_def js_sort_def score_cmp_def js_gt_def js_sub_def suppress_filter
        overlaps_def iou_rbox Let_def)
  show ?thesis
    unfolding once twice by (simp add: rbox_def)
qed

section \<open>Properties of the letterbox geometry\<close>

text \<open>
  Rounding to binary64 moves a positive value by at most the fraction \<open>2^-53\<close> of it,
  and keeps it positive.
\<close>

lemma js_round_near: "\<bar>of_int \<lfloor>x + 1 / 2\<rfloor> - x\<bar> \<le> (1 / 2 :: real)"
  by linarith

lemma js_round_le_int:
  fixes x :: real and n :: int
  assumes "x < of_int n + 1 / 2"
  shows "\<lfloor>x + 1 / 2\<rfloor> \<le> n"
proof -
  have "x + 1 / 2 < of_int (n + 1)"
    using assms by simp
  then have "\<lfloor>x + 1 / 2\<rfloor> < n + 1"
    by (simp only: floor_less_iff)
  then show ?thesis by simp
qed

lemma pad_nonneg:
  fixes n m :: int
  assumes "m \<le> n"
  shows "0 \<le> \<lfloor>(of_int n - of_int m) / (2 :: real)\<rfloor>"
  using assms by simp

lemma round_even_near: "\<bar>of_int (round_even x) - x\<bar> \<le> (1 / 2 :: real)"
proof -
  have "of_int \<lfloor>x\<rfloor> \<le> x" "x < of_int \<lfloor>x\<rfloor> + 1"
    by linarith+
  then show ?thesis
    by (auto simp: round_even_def Let_def)
qed

lemma f64_pos_error: "0 < x \<Longrightarrow> \<bar>f64_pos x - x\<bar> \<le> x / 2 ^ 53"
proof (induction x rule: f64_pos.induct)
  case (1 x)
  show ?case
  proof (cases "x < 2 ^ 52")
    case True
    then have eq: "f64_pos x = f64_pos (2 * x) / 2"
      using "1.prems" by (subst f64_pos.simps) simp
    have "\<bar>f64_pos (2 * x) - 2 * x\<bar> \<le> 2 * x / 2 ^ 53"
      using "1.IH"(1) True "1.prems" by simp
    then show ?thesis
      unfolding eq by (simp add: field_simps)
  next
    case False
    show ?thesis
    proof (cases "2 ^ 53 \<le> x")
      case True
      then have eq: "f64_pos x = 2 * f64_pos (x / 2)"
        using "1.prems" False by (subst f64_pos.simps) simp
      have "\<bar>f64_pos (x / 2) - x / 2\<bar> \<le> x / 2 / 2 ^ 53"
        using "1.IH"(2) True False "1.prems" by simp
      then show ?thesis
        unfolding eq by (simp add: field_simps)
    next
      case big: False
      then have eq: "f64_pos x = of_int (round_even x)"
        using "1.prems" False by (subst f64_pos.simps) simp
      have "(1 / 2 :: real) \<le> x / 2 ^ 53"
        using False by (simp add: field_simps)
      then show ?thesis
        unfolding eq using round_even_near [of x] by linarith
    qed
  qed
qed

lemma rel_error_bounds:
  fixes f x u :: real
  assumes "\<bar>f - x\<bar> \<le> x * u"
  shows "x * (1 - u) \<le> f" and "f \<le> x * (1 + u)"
  using assms by (simp_all add: algebra_simps abs_le_iff)

lemma rel_error_intro:
  fixes f x u :: real
  assumes "x * (1 - u) \<le> f" "f \<le> x * (1 + u)"
  shows "\<bar>f - x\<bar> \<le> x * u"
  using assms by (simp add: algebra_simps abs_le_iff)

lemma f64_pos_rel:
  assumes "0 < x"
  shows "\<bar>f64_pos x - x\<bar> \<le> x * (1 / 2 ^ 53)" and "0 < f64_pos x"
proof -
  have "\<bar>f64_pos x - x\<bar> \<le> x / 2 ^ 53"
    using assms by (rule f64_pos_error)
  then show e: "\<bar>f64_pos x - x\<bar> \<le> x * (1 / 2 ^ 53)"
    by simp
  have "0 < x * (1 - 1 / 2 ^ 53)"
    using assms by simp
  then show "0 < f64_pos x"
    using rel_error_bounds(1) [OF e] by linarith
qed

text \<open>The smaller of two rounded quotients is as close to the smaller quotient.\<close>

lemma min_rel_error:
  fixes a b fa fb u :: real
  assumes "\<bar>fa - a\<bar> \<le> a * u" "\<bar>fb - b\<bar> \<le> b * u" "0 \<le> u" "u \<le> 1"
  shows "\<bar>min fa fb - min a b\<bar> \<le> min a b * u"
proof -
  note A = rel_error_bounds [OF assms(1)] and B = rel_error_bounds [OF assms(2)]
  have mono: "min a b * (1 - u) \<le> a * (1 - u)" "min a b * (1 - u) \<le> b * (1 - u)"
    using assms(4) by (simp_all add: mult_right_mono)
  have lo: "min a b * (1 - u) \<le> min fa fb"
    using A(1) B(1) mono by (simp add: min_def)
  have hi: "min fa fb \<le> min a b * (1 + u)"
    using A(2) B(2) by (auto simp: min_def)
  show ?thesis
    using lo hi by (rule rel_error_intro)
qed

text \<open>
  A size \<open>n\<close> times the rounded scale \<open>s\<close>, rounded again to \<open>f\<close>, against \<open>n\<close> times the
  exact scale \<open>m\<close>.
\<close>

lemma product_error:
  fixes n m s f u :: real
  assumes "0 \<le> n" "0 \<le> m" "\<bar>s - m\<bar> \<le> m * u" "\<bar>f - n * s\<bar> \<le> n * s * u" "0 \<le> u" "u \<le> 1"
  shows "\<bar>f - n * m\<bar> \<le> 3 * (n * m) * u"
proof -
  have s: "s \<le> m * (1 + u)"
    by (rule rel_error_bounds(2) [OF assms(3)])
  have "n * s \<le> n * (m * (1 + u))"
    using s assms(1) by (rule mult_left_mono)
  then have "n * s * u \<le> n * (m * (1 + u)) * u"
    using assms(5) by (rule mult_right_mono)
  also have "\<dots> = n * m * u + n * m * u * u"
    by (simp add: algebra_simps)
  also have "\<dots> \<le> n * m * u + n * m * u * 1"
    using assms by (intro add_left_mono mult_left_mono) simp_all
  also have "\<dots> = 2 * (n * m * u)"
    by simp
  finally have "n * s * u \<le> 2 * (n * m * u)" .
  then have one: "\<bar>f - n * s\<bar> \<le> 2 * (n * m * u)"
    using assms(4) by linarith
  have "\<bar>n * s - n * m\<bar> = n * \<bar>s - m\<bar>"
    using assms(1) by (simp add: abs_mult flip: right_diff_distrib)
  also have "\<dots> \<le> n * (m * u)"
    using assms(3,1) by (rule mult_left_mono)
  finally have two: "\<bar>n * s - n * m\<bar> \<le> n * m * u"
    by (simp add: algebra_simps)
  have "\<bar>f - n * m\<bar> \<le> \<bar>f - n * s\<bar> + \<bar>n * s - n * m\<bar>"
    by simp
  then show ?thesis
    using one two by linarith
qed

lemma ratio_error:
  fixes sw sh a b t :: real
  assumes "\<bar>sw - a\<bar> \<le> t" "\<bar>sh - b\<bar> \<le> t" "0 \<le> a" "0 < b" "0 < sh"
  shows "\<bar>sw / sh - a / b\<bar> \<le> t * (1 + a / b) / sh"
proof -
  have eq: "sw / sh - a / b = ((sw - a) - (sh - b) * (a / b)) / sh"
    using assms(4,5) by (simp add: field_simps)
  have r: "0 \<le> a / b"
    using assms by simp
  have "\<bar>(sh - b) * (a / b)\<bar> = \<bar>sh - b\<bar> * (a / b)"
    by (simp only: abs_mult abs_of_nonneg [OF r])
  also have "\<dots> \<le> t * (a / b)"
    using assms(2) r by (rule mult_right_mono)
  finally have two: "\<bar>(sh - b) * (a / b)\<bar> \<le> t * (a / b)" .
  have "\<bar>(sw - a) - (sh - b) * (a / b)\<bar> \<le> \<bar>sw - a\<bar> + \<bar>(sh - b) * (a / b)\<bar>"
    by (rule abs_triangle_ineq4)
  also have "\<dots> \<le> t + t * (a / b)"
    using assms(1) two by (rule add_mono)
  finally have "\<bar>(sw - a) - (sh - b) * (a / b)\<bar> \<le> t * (1 + a / b)"
    by (simp add: algebra_simps)
  then have "\<bar>(sw - a) - (sh - b) * (a / b)\<bar> / sh \<le> t * (1 + a / b) / sh"
    using assms(5) by (simp add: divide_right_mono)
  then show ?thesis
    unfolding eq using assms(5) by simp
qed

text \<open>
  The values of the five quantities, and how far the two rounded products are from
  the exact scaled sizes when the target is below \<open>2^32\<close>, as the size of a canvas is.
\<close>

lemma f64_Num: "0 \<le> a \<Longrightarrow> f64 (Num a) = Num (f64_pos a)"
  by simp

lemma lb_values:
  fixes iw ih W H :: nat
  defines "s \<equiv> min (f64_pos (real W / real iw)) (f64_pos (real H / real ih))"
  defines "sw \<equiv> \<lfloor>f64_pos (real iw * s) + 1 / 2\<rfloor>"
  defines "sh \<equiv> \<lfloor>f64_pos (real ih * s) + 1 / 2\<rfloor>"
  assumes pos: "0 < iw" "0 < ih" "0 < W" "0 < H"
  shows "lb_scale iw ih (Num (real W)) (Num (real H)) = Num s"
    and "lb_scaledWidth iw ih (Num (real W)) (Num (real H)) = Num (of_int sw)"
    and "lb_scaledHeight iw ih (Num (real W)) (Num (real H)) = Num (of_int sh)"
    and "lb_padX iw ih (Num (real W)) (Num (real H)) = Num (of_int \<lfloor>(real W - of_int sw) / 2\<rfloor>)"
    and "lb_padY iw ih (Num (real W)) (Num (real H)) = Num (of_int \<lfloor>(real H - of_int sh) / 2\<rfloor>)"
    and "0 < s"
proof -
  have q: "0 < real W / real iw" "0 < real H / real ih"
    using pos by simp_all
  show s: "0 < s"
    unfolding s_def using f64_pos_rel(2) [OF q(1)] f64_pos_rel(2) [OF q(2)] by simp
  have quot: "js_div (Num (real W)) (Num (real iw)) = Num (real W / real iw)"
    "js_div (Num (real H)) (Num (real ih)) = Num (real H / real ih)"
    using pos by simp_all
  have rq: "f64 (Num (real W / real iw)) = Num (f64_pos (real W / real iw))"
    "f64 (Num (real H / real ih)) = Num (f64_pos (real H / real ih))"
    using q by (simp_all only: f64_Num less_imp_le)
  show scale: "lb_scale iw ih (Num (real W)) (Num (real H)) = Num s"
    by (simp only: lb_scale_def quot rq js_min_Num s_def)
  have "0 \<le> real iw * s" "0 \<le> real ih * s"
    using s by simp_all
  then have prod: "f64 (Num (real iw * s)) = Num (f64_pos (real iw * s))"
    "f64 (Num (real ih * s)) = Num (f64_pos (real ih * s))"
    by (simp_all only: f64_Num)
  show w: "lb_scaledWidth iw ih (Num (real W)) (Num (real H)) = Num (of_int sw)"
    by (simp add: lb_scaledWidth_def scale sw_def prod del: f64.simps)
  show h: "lb_scaledHeight iw ih (Num (real W)) (Num (real H)) = Num (of_int sh)"
    by (simp add: lb_scaledHeight_def scale sh_def prod del: f64.simps)
  show "lb_padX iw ih (Num (real W)) (Num (real H)) = Num (of_int \<lfloor>(real W - of_int sw) / 2\<rfloor>)"
    by (simp add: lb_padX_def w js_sub_Num)
  show "lb_padY iw ih (Num (real W)) (Num (real H)) = Num (of_int \<lfloor>(real H - of_int sh) / 2\<rfloor>)"
    by (simp add: lb_padY_def h js_sub_Num)
qed

lemma small_error:
  fixes a :: real
  assumes "0 \<le> a" "a \<le> 2 ^ 32"
  shows "3 * a * (1 / 2 ^ 53) \<le> 1 / 2 ^ 19"
  using assms by simp

lemma lb_errors:
  fixes iw ih W H :: nat
  defines "m \<equiv> min (real W / real iw) (real H / real ih)"
  defines "s \<equiv> min (f64_pos (real W / real iw)) (f64_pos (real H / real ih))"
  assumes pos: "0 < iw" "0 < ih" "0 < W" "0 < H"
    and canvas: "W < 2 ^ 32" "H < 2 ^ 32"
  shows "\<bar>s - m\<bar> \<le> m / 2 ^ 53"
    and "0 < m"
    and "real iw * m \<le> real W"
    and "real ih * m \<le> real H"
    and "\<bar>f64_pos (real iw * s) - real iw * m\<bar> \<le> 1 / 2 ^ 19"
    and "\<bar>f64_pos (real ih * s) - real ih * m\<bar> \<le> 1 / 2 ^ 19"
proof -
  have q: "0 < real W / real iw" "0 < real H / real ih"
    using pos by simp_all
  show m: "0 < m"
    unfolding m_def using q by simp
  have u: "(0 :: real) \<le> 1 / 2 ^ 53" "(1 :: real) / 2 ^ 53 \<le> 1"
    by simp_all
  have sm: "\<bar>s - m\<bar> \<le> m * (1 / 2 ^ 53)"
    unfolding s_def m_def
    by (rule min_rel_error [OF f64_pos_rel(1) [OF q(1)] f64_pos_rel(1) [OF q(2)] u])
  then show "\<bar>s - m\<bar> \<le> m / 2 ^ 53"
    by simp
  have "0 < s"
    unfolding s_def using f64_pos_rel(2) [OF q(1)] f64_pos_rel(2) [OF q(2)] by simp
  then have ps: "0 < real iw * s" "0 < real ih * s"
    using pos by simp_all
  have "real iw * m \<le> real iw * (real W / real iw)"
    unfolding m_def by (intro mult_left_mono) simp_all
  then show fw: "real iw * m \<le> real W"
    using pos by simp
  have "real ih * m \<le> real ih * (real H / real ih)"
    unfolding m_def by (intro mult_left_mono) simp_all
  then show fh: "real ih * m \<le> real H"
    using pos by simp
  have "real W < real (2 ^ 32)" "real H < real (2 ^ 32)"
    using canvas by (simp_all only: of_nat_less_iff)
  then have Wb: "real W \<le> 2 ^ 32" "real H \<le> 2 ^ 32"
    by simp_all
  have "\<bar>f64_pos (real iw * s) - real iw * m\<bar> \<le> 3 * (real iw * m) * (1 / 2 ^ 53)"
    using m by (intro product_error [OF _ _ sm f64_pos_rel(1) [OF ps(1)] u]) simp_all
  also have "\<dots> \<le> 1 / 2 ^ 19"
    using m fw Wb(1) by (intro small_error) simp_all
  finally show "\<bar>f64_pos (real iw * s) - real iw * m\<bar> \<le> 1 / 2 ^ 19" .
  have "\<bar>f64_pos (real ih * s) - real ih * m\<bar> \<le> 3 * (real ih * m) * (1 / 2 ^ 53)"
    using m by (intro product_error [OF _ _ sm f64_pos_rel(1) [OF ps(2)] u]) simp_all
  also have "\<dots> \<le> 1 / 2 ^ 19"
    using m fh Wb(2) by (intro small_error) simp_all
  finally show "\<bar>f64_pos (real ih * s) - real ih * m\<bar> \<le> 1 / 2 ^ 19" .
qed

lemma round_bounds:
  fixes f a :: real and n :: nat
  assumes "\<bar>f - a\<bar> \<le> 1 / 2 ^ 19" "0 \<le> a" "a \<le> real n"
  shows "0 \<le> \<lfloor>f + 1 / 2\<rfloor>" and "\<lfloor>f + 1 / 2\<rfloor> \<le> int n"
    and "\<bar>of_int \<lfloor>f + 1 / 2\<rfloor> - a\<bar> \<le> 1 / 2 + 1 / 2 ^ 19"
proof -
  have e: "(1 :: real) / 2 ^ 19 < 1 / 2"
    by simp
  have "0 \<le> f + 1 / 2"
    using assms(1,2) e by linarith
  then show "0 \<le> \<lfloor>f + 1 / 2\<rfloor>"
    by simp
  have "f < real n + 1 / 2"
    using assms(1,3) e by linarith
  then have "f < of_int (int n) + 1 / 2"
    by simp
  then show "\<lfloor>f + 1 / 2\<rfloor> \<le> int n"
    by (rule js_round_le_int)
  show "\<bar>of_int \<lfloor>f + 1 / 2\<rfloor> - a\<bar> \<le> 1 / 2 + 1 / 2 ^ 19"
    using js_round_near [of f] assms(1) by linarith
qed

text \<open>
  Claim C7, amended. For an image of positive integer size and a target of positive
  integer size below \<open>2^32\<close>: the scale is the smaller of the two quotients, each
  rounded to binary64, within the fraction \<open>2^-53\<close> of \<open>m = min (W / iw) (H / ih)\<close>; the
  scaled sizes are the roundings of the products, integers from \<open>0\<close> to the target
  size, each within \<open>1/2 + 2^-19\<close> of the exact \<open>iw * m\<close> and \<open>ih * m\<close>; the paddings
  are the floors the claim gives and are not negative. When the scaled height is not
  \<open>0\<close>, the ratio of the scaled sizes differs from \<open>iw / ih\<close> by at most
  \<open>(1/2 + 2^-19) * (1 + iw / ih) / scaledHeight\<close>. \<open>prepareOcrInput\<close> is the case
  \<open>W = 140\<close>, \<open>H = 70\<close>.
\<close>

theorem letterbox_geometry:
  fixes iw ih W H :: nat
  defines "m \<equiv> min (real W / real iw) (real H / real ih)"
  defines "s \<equiv> min (f64_pos (real W / real iw)) (f64_pos (real H / real ih))"
  defines "sw \<equiv> \<lfloor>f64_pos (real iw * s) + 1 / 2\<rfloor>"
  defines "sh \<equiv> \<lfloor>f64_pos (real ih * s) + 1 / 2\<rfloor>"
  assumes pos: "0 < iw" "0 < ih" "0 < W" "0 < H"
    and canvas: "W < 2 ^ 32" "H < 2 ^ 32"
  shows "lb_scale iw ih (Num (real W)) (Num (real H)) = Num s
    \<and> \<bar>s - m\<bar> \<le> m / 2 ^ 53
    \<and> lb_scaledWidth iw ih (Num (real W)) (Num (real H)) = Num (of_int sw)
    \<and> lb_scaledHeight iw ih (Num (real W)) (Num (real H)) = Num (of_int sh)
    \<and> lb_padX iw ih (Num (real W)) (Num (real H)) = Num (of_int \<lfloor>(real W - of_int sw) / 2\<rfloor>)
    \<and> lb_padY iw ih (Num (real W)) (Num (real H)) = Num (of_int \<lfloor>(real H - of_int sh) / 2\<rfloor>)
    \<and> 0 \<le> \<lfloor>(real W - of_int sw) / 2\<rfloor>
    \<and> 0 \<le> \<lfloor>(real H - of_int sh) / 2\<rfloor>
    \<and> 0 \<le> sw \<and> sw \<le> int W \<and> 0 \<le> sh \<and> sh \<le> int H
    \<and> \<bar>of_int sw - real iw * m\<bar> \<le> 1 / 2 + 1 / 2 ^ 19
    \<and> \<bar>of_int sh - real ih * m\<bar> \<le> 1 / 2 + 1 / 2 ^ 19
    \<and> (0 < sh \<longrightarrow>
         \<bar>of_int sw / of_int sh - real iw / real ih\<bar>
           \<le> (1 / 2 + 1 / 2 ^ 19) * (1 + real iw / real ih) / of_int sh)"
proof -
  note v = lb_values [OF pos, folded s_def, folded sw_def sh_def]
  note e = lb_errors [OF pos canvas, folded m_def s_def]
  have a: "0 \<le> real iw * m" "0 \<le> real ih * m" "0 < real ih * m"
    using e(2) pos by simp_all
  note rw = round_bounds [OF e(5) a(1) e(3), folded sw_def]
  note rh = round_bounds [OF e(6) a(2) e(4), folded sh_def]
  have px: "0 \<le> \<lfloor>(real W - of_int sw) / 2\<rfloor>"
    using pad_nonneg [OF rw(2)] by simp
  have py: "0 \<le> \<lfloor>(real H - of_int sh) / 2\<rfloor>"
    using pad_nonneg [OF rh(2)] by simp
  have ratio: "\<bar>of_int sw / of_int sh - real iw / real ih\<bar>
      \<le> (1 / 2 + 1 / 2 ^ 19) * (1 + real iw / real ih) / of_int sh" if "0 < sh"
  proof -
    have "0 < (of_int sh :: real)"
      using that by simp
    then have "\<bar>of_int sw / of_int sh - real iw * m / (real ih * m)\<bar>
        \<le> (1 / 2 + 1 / 2 ^ 19) * (1 + real iw * m / (real ih * m)) / of_int sh"
      by (rule ratio_error [OF rw(3) rh(3) a(1) a(3)])
    moreover have "real iw * m / (real ih * m) = real iw / real ih"
      using e(2) by simp
    ultimately show ?thesis
      by (simp only:)
  qed
  show ?thesis
    using v(1-5) e(1) px py rw rh ratio by (intro conjI impI) assumption+
qed

text \<open>
  A 1280 by 720 frame into the 640 by 640 detector input, and crops of 136 by 51 and
  of 51 by 68 into the 140 by 70 input of the recogniser: the products
  \<open>51 * (140 / 136)\<close> and \<open>51 * (70 / 68)\<close> are \<open>52.5\<close> in exact arithmetic and just
  below it in binary64, so the scaled size is \<open>52\<close>.
\<close>

lemma f64_values:
  "f64_pos (1 / 2) = 1 / 2"
  "f64_pos 640 = 640"
  "f64_pos 360 = 360"
  "f64_pos 1 = 1"
  "f64_pos 480 = 480"
  "1 / 2 \<le> f64_pos (8 / 9)"
  "1 \<le> f64_pos (4 / 3)"
  by (simp_all add: f64_pos.simps round_even_def)

theorem letterbox_geometry_witness:
  "lb_scale 1280 720 (Num 640) (Num 640) = Num (1 / 2)
   \<and> lb_scaledWidth 1280 720 (Num 640) (Num 640) = Num 640
   \<and> lb_scaledHeight 1280 720 (Num 640) (Num 640) = Num 360
   \<and> lb_padX 1280 720 (Num 640) (Num 640) = Num 0
   \<and> lb_padY 1280 720 (Num 640) (Num 640) = Num 140
   \<and> lb_scaledWidth 136 51 (Num 140) (Num 70) = Num 140
   \<and> lb_scaledHeight 136 51 (Num 140) (Num 70) = Num 52
   \<and> lb_padX 136 51 (Num 140) (Num 70) = Num 0
   \<and> lb_padY 136 51 (Num 140) (Num 70) = Num 9
   \<and> lb_scaledWidth 51 68 (Num 140) (Num 70) = Num 52
   \<and> lb_scaledHeight 51 68 (Num 140) (Num 70) = Num 70
   \<and> lb_padX 51 68 (Num 140) (Num 70) = Num 44
   \<and> lb_padY 51 68 (Num 140) (Num 70) = Num 0"
proof -
  have a: "lb_scale 1280 720 (Num 640) (Num 640) = Num (1 / 2)
   \<and> lb_scaledWidth 1280 720 (Num 640) (Num 640) = Num 640
   \<and> lb_scaledHeight 1280 720 (Num 640) (Num 640) = Num 360
   \<and> lb_padX 1280 720 (Num 640) (Num 640) = Num 0
   \<and> lb_padY 1280 720 (Num 640) (Num 640) = Num 140"
    using letterbox_geometry [of 1280 720 640 640]
    by (simp add: f64_pos.simps round_even_def)
  have b: "lb_scaledWidth 136 51 (Num 140) (Num 70) = Num 140
   \<and> lb_scaledHeight 136 51 (Num 140) (Num 70) = Num 52
   \<and> lb_padX 136 51 (Num 140) (Num 70) = Num 0
   \<and> lb_padY 136 51 (Num 140) (Num 70) = Num 9"
    using letterbox_geometry [of 136 51 140 70]
    by (simp add: f64_pos.simps round_even_def)
  have c: "lb_scaledWidth 51 68 (Num 140) (Num 70) = Num 52
   \<and> lb_scaledHeight 51 68 (Num 140) (Num 70) = Num 70
   \<and> lb_padX 51 68 (Num 140) (Num 70) = Num 44
   \<and> lb_padY 51 68 (Num 140) (Num 70) = Num 0"
    using letterbox_geometry [of 51 68 140 70]
    by (simp add: f64_pos.simps round_even_def)
  show ?thesis
    using a b c by simp
qed

text \<open>
  Claim C7 as it is written fails when a scaled size rounds to \<open>0\<close>. A crop of 300 by
  1 pixels into the 140 by 70 input of the recogniser has the scale \<open>140 / 300\<close>, the
  scaled width \<open>140\<close> and the scaled height \<open>0\<close>: the ratio of the scaled sizes is
  \<open>Infinity\<close>, against \<open>300\<close> for the image.
\<close>

theorem letterbox_ratio_counterexample:
  "ocr_scaledWidth 300 1 = Num 140
   \<and> ocr_scaledHeight 300 1 = Num 0
   \<and> js_div (ocr_scaledWidth 300 1) (ocr_scaledHeight 300 1) = PosInf"
proof -
  have s: "lb_scale 300 (Suc 0) (Num 140) (Num 70) = Num (f64_pos (7 / 15))"
    by (simp add: lb_scale_def js_min_Num f64_pos.simps round_even_def)
  have w: "ocr_scaledWidth 300 1 = Num 140"
    by (simp add: ocr_scaledWidth_def lb_scaledWidth_def OCR_INPUT_width_def
        OCR_INPUT_height_def s f64_pos.simps round_even_def)
  have h: "ocr_scaledHeight 300 1 = Num 0"
    by (simp add: ocr_scaledHeight_def lb_scaledHeight_def OCR_INPUT_width_def
        OCR_INPUT_height_def s f64_pos.simps round_even_def)
  show ?thesis
    unfolding w h by simp
qed

section \<open>The inverse mapping and the round trip\<close>

lemma prepared_fields:
  fixes iw ih W H :: nat
  assumes pos: "0 < iw" "0 < ih" "0 < W" "0 < H"
    and prep: "prepareDetectorInput True iw ih (Num (real W)) (Num (real H)) u = Some p"
  shows "\<exists>s px py. scale p = Num s \<and> 0 < s \<and> padX p = Num px \<and> padY p = Num py"
proof -
  have p: "scale p = lb_scale iw ih (Num (real W)) (Num (real H))"
    "padX p = lb_padX iw ih (Num (real W)) (Num (real H))"
    "padY p = lb_padY iw ih (Num (real W)) (Num (real H))"
    using prep by (auto simp: prepareDetectorInput_def)
  show ?thesis
    unfolding p using lb_values(1,4,5,6) [OF pos] by blast
qed

lemma round_trip_exact:
  assumes "scale p = Num s" "0 < s" "padX p = Num px" "padY p = Num py"
    and "px \<le> x1" "py \<le> y1" "x2 \<le> px + s * real iw" "y2 \<le> py + s * real ih"
  shows "forward_spec p (cropRect (rbox x1 y1 x2 y2) p iw ih) = rbox x1 y1 x2 y2"
proof -
  have a: "max 0 ((x1 - px) / s) = (x1 - px) / s" "max 0 ((y1 - py) / s) = (y1 - py) / s"
    using assms by (simp_all add: max_def)
  have "(x2 - px) / s \<le> real iw" "(y2 - py) / s \<le> real ih"
    using assms by (simp_all add: field_simps)
  then have b: "min (real iw) ((x2 - px) / s) = (x2 - px) / s"
    "min (real ih) ((y2 - py) / s) = (y2 - py) / s"
    by (simp_all add: min_def)
  have crop: "cropRect (rbox x1 y1 x2 y2) p iw ih
      = rbox ((x1 - px) / s) ((y1 - py) / s) ((x2 - px) / s) ((y2 - py) / s)"
  proof -
    have "cropRect (rbox x1 y1 x2 y2) p iw ih
      = [Num (max 0 ((x1 - px) / s)), Num (max 0 ((y1 - py) / s)),
         Num (min (real iw) ((x2 - px) / s)), Num (min (real ih) ((y2 - py) / s))]"
      using assms(1-4)
      by (simp add: cropRect_def elem_rbox js_sub_Num js_max_Num js_min_Num)
    then show ?thesis
      by (simp only: a b rbox_def)
  qed
  show ?thesis
    using assms(1-4) by (simp add: crop forward_spec_def elem_rbox) (simp add: rbox_def)
qed

text \<open>
  In general the round trip clamps: a corner before the padding comes back as the
  padding, a corner beyond the scaled image as its far edge.
\<close>

lemma round_trip_clamped:
  assumes "scale p = Num s" "0 < s" "padX p = Num px" "padY p = Num py"
  shows "forward_spec p (cropRect (rbox x1 y1 x2 y2) p iw ih)
       = rbox (max px x1) (max py y1) (min (px + s * real iw) x2) (min (py + s * real ih) y2)"
proof -
  have lo: "max 0 ((v - q) / s) * s + q = max q v" for v q :: real
    using assms(2) by (simp add: max_def field_simps)
  have hi: "min n ((v - q) / s) * s + q = min (q + s * n) v" for v q n :: real
    using assms(2) by (simp add: min_def field_simps)
  have crop: "cropRect (rbox x1 y1 x2 y2) p iw ih
      = [Num (max 0 ((x1 - px) / s)), Num (max 0 ((y1 - py) / s)),
         Num (min (real iw) ((x2 - px) / s)), Num (min (real ih) ((y2 - py) / s))]"
    using assms by (simp add: cropRect_def elem_rbox js_sub_Num js_max_Num js_min_Num)
  have "forward_spec p (cropRect (rbox x1 y1 x2 y2) p iw ih)
      = [Num (max 0 ((x1 - px) / s) * s + px), Num (max 0 ((y1 - py) / s) * s + py),
         Num (min (real iw) ((x2 - px) / s) * s + px), Num (min (real ih) ((y2 - py) / s) * s + py)]"
    unfolding crop using assms by (simp add: forward_spec_def elem_def)
  then show ?thesis
    by (simp only: lo hi rbox_def)
qed

text \<open>A 640 by 480 image in the 640 by 640 input: scale 1, 80 rows of padding above.\<close>

lemma prepare_640_480:
  "prepareDetectorInput True 640 480 (Num 640) (Num 640) False
     = Some \<lparr>tensorType = Float32, scale = Num 1, padX = Num 0, padY = Num 80,
              width = Num 640, height = Num 640\<rparr>"
proof -
  have s: "lb_scale 640 480 (Num 640) (Num 640) = Num 1"
    using f64_values(4,7) by (simp add: lb_scale_def js_min_Num)
  have w: "lb_scaledWidth 640 480 (Num 640) (Num 640) = Num 640"
    by (simp add: lb_scaledWidth_def s f64_values)
  have h: "lb_scaledHeight 640 480 (Num 640) (Num 640) = Num 480"
    by (simp add: lb_scaledHeight_def s f64_values)
  have px: "lb_padX 640 480 (Num 640) (Num 640) = Num 0"
    by (simp add: lb_padX_def w js_sub_Num)
  have py: "lb_padY 640 480 (Num 640) (Num 640) = Num 80"
    by (simp add: lb_padY_def h js_sub_Num)
  show ?thesis
    by (simp add: prepareDetectorInput_def s px py)
qed

text \<open>
  Claim C6, amended. When the box lies in the part of the tensor that the image covers
  (\<open>padX \<le> x1\<close>, \<open>padY \<le> y1\<close>, \<open>x2 \<le> padX + scale * iw\<close>, \<open>y2 \<le> padY + scale * ih\<close>), no
  clamp of the inverse mapping is active and mapping back and forth returns the box:
  exactly in real arithmetic, so within one pixel in each component.
\<close>

theorem letterbox_round_trip:
  fixes iw ih W H :: nat
  assumes pos: "0 < iw" "0 < ih" "0 < W" "0 < H"
    and prep: "prepareDetectorInput True iw ih (Num (real W)) (Num (real H)) useUint8 = Some p"
    and names: "scale p = Num s" "padX p = Num px" "padY p = Num py"
    and inside: "px \<le> x1" "py \<le> y1" "x2 \<le> px + s * real iw" "y2 \<le> py + s * real ih"
  shows "forward_spec p (cropRect (rbox x1 y1 x2 y2) p iw ih) = rbox x1 y1 x2 y2
    \<and> list_all2 (js_within 1) (forward_spec p (cropRect (rbox x1 y1 x2 y2) p iw ih))
          (rbox x1 y1 x2 y2)"
proof -
  obtain s' px' py' where "scale p = Num s'" "0 < s'" "padX p = Num px'" "padY p = Num py'"
    using prepared_fields [OF pos prep] by blast
  then have "0 < s"
    using names by simp
  then have trip: "forward_spec p (cropRect (rbox x1 y1 x2 y2) p iw ih) = rbox x1 y1 x2 y2"
    using names inside by (intro round_trip_exact)
  have "list_all2 (js_within 1) (rbox x1 y1 x2 y2) (rbox x1 y1 x2 y2)"
    by (simp add: rbox_def)
  then show ?thesis
    using trip by simp
qed

theorem letterbox_round_trip_witness:
  "forward_spec \<lparr>tensorType = Float32, scale = Num 1, padX = Num 0, padY = Num 80,
                  width = Num 640, height = Num 640\<rparr>
     (cropRect (rbox 10 100 100 200)
        \<lparr>tensorType = Float32, scale = Num 1, padX = Num 0, padY = Num 80,
          width = Num 640, height = Num 640\<rparr> 640 480)
   = rbox 10 100 100 200"
proof -
  let ?p = "\<lparr>tensorType = Float32, scale = Num 1, padX = Num 0, padY = Num 80,
             width = Num 640, height = Num 640\<rparr>"
  have prep: "prepareDetectorInput True 640 480 (Num (real 640)) (Num (real 640)) False = Some ?p"
    using prepare_640_480 by simp
  have names: "scale ?p = Num 1" "padX ?p = Num 0" "padY ?p = Num 80"
    by simp_all
  have inside: "(0 :: real) \<le> 10" "(80 :: real) \<le> 100"
    "(100 :: real) \<le> 0 + 1 * real 640" "(200 :: real) \<le> 80 + 1 * real 480"
    by simp_all
  have pos: "(0 :: nat) < 640" "(0 :: nat) < 480"
    by simp_all
  show ?thesis
    using letterbox_round_trip [OF pos(1) pos(2) pos(1) pos(1) prep names inside]
    by simp
qed

text \<open>
  Claim C6 as it is written fails for a box in the padding. With the same image and
  input, the box \<open>[10, 20, 100, 60]\<close> lies in the 80 rows of padding above the image:
  the inverse mapping clamps \<open>y1\<close> to \<open>0\<close>, and the forward mapping returns \<open>80\<close>, sixty
  pixels from \<open>20\<close>.
\<close>

theorem letterbox_round_trip_counterexample:
  "prepareDetectorInput True 640 480 (Num 640) (Num 640) False
     = Some \<lparr>tensorType = Float32, scale = Num 1, padX = Num 0, padY = Num 80,
              width = Num 640, height = Num 640\<rparr>
   \<and> cropRect [Num 10, Num 20, Num 100, Num 60]
           \<lparr>tensorType = Float32, scale = Num 1, padX = Num 0, padY = Num 80,
              width = Num 640, height = Num 640\<rparr> 640 480
     = [Num 10, Num 0, Num 100, Num (- 20)]
   \<and> forward_spec \<lparr>tensorType = Float32, scale = Num 1, padX = Num 0, padY = Num 80,
              width = Num 640, height = Num 640\<rparr>
        (cropRect [Num 10, Num 20, Num 100, Num 60]
           \<lparr>tensorType = Float32, scale = Num 1, padX = Num 0, padY = Num 80,
              width = Num 640, height = Num 640\<rparr> 640 480)
     = [Num 10, Num 80, Num 100, Num 60]
   \<and> \<not> js_within 1 (Num 80) (Num 20)"
proof -
  have crop: "cropRect [Num 10, Num 20, Num 100, Num 60]
           \<lparr>tensorType = Float32, scale = Num 1, padX = Num 0, padY = Num 80,
              width = Num 640, height = Num 640\<rparr> 640 480
      = [Num 10, Num 0, Num 100, Num (- 20)]"
    by (simp add: cropRect_def elem_def js_sub_Num js_max_Num js_min_Num)
  have fwd: "forward_spec \<lparr>tensorType = Float32, scale = Num 1, padX = Num 0, padY = Num 80,
              width = Num 640, height = Num 640\<rparr> [Num 10, Num 0, Num 100, Num (- 20)]
      = [Num 10, Num 80, Num 100, Num 60]"
    by (simp add: forward_spec_def elem_def)
  show ?thesis
    by (simp add: prepare_640_480 crop fwd)
qed

section \<open>The two layouts of the detector's output\<close>

lemma elem_transpose:
  assumes "i < N" "c < C" "length d = N * C"
  shows "elem (transpose_spec N C d) (i + c * N) = elem d (i * C + c)"
proof -
  have "c * N + i < C * N"
  proof -
    have "c * N + i < c * N + N" using assms(1) by simp
    also have "\<dots> = (c + 1) * N" by simp
    also have "\<dots> \<le> C * N" using assms(2) by (intro mult_le_mono1) simp
    finally show ?thesis .
  qed
  then have k: "i + c * N < N * C"
    by (simp add: ac_simps)
  have m: "(i + c * N) mod N = i" "(i + c * N) div N = c"
    using assms(1) by simp_all
  have "elem (transpose_spec N C d) (i + c * N)
      = elem d (((i + c * N) mod N) * C + (i + c * N) div N)"
    using k by (simp add: transpose_spec_def elem_def del: mod_mult_self1 mod_mult_self2 div_mult_self1 div_mult_self2 div_mult_self3 div_mult_self4 mod_mult_self3 mod_mult_self4)
  then show ?thesis
    by (simp only: m)
qed

lemma elem_transpose0:
  assumes "i < N" "0 < C" "length d = N * C"
  shows "elem (transpose_spec N C d) i = elem d (i * C)"
  using elem_transpose [OF assms(1) assms(2) assms(3)] by simp

lemma maxCoord_transpose:
  assumes "4 \<le> C" "length d = N * C"
  shows "maxCoord_channels_first (transpose_spec N C d) N = maxCoord_boxes_first d N C"
  unfolding maxCoord_channels_first_def maxCoord_boxes_first_def
proof (rule fold_cong)
  fix i assume "i \<in> set [0..<min N 50]"
  then have i: "i < N" by simp
  have r: "elem (transpose_spec N C d) i = elem d (i * C)"
    "elem (transpose_spec N C d) (i + N) = elem d (i * C + 1)"
    "elem (transpose_spec N C d) (i + 2 * N) = elem d (i * C + 2)"
    "elem (transpose_spec N C d) (i + 3 * N) = elem d (i * C + 3)"
    using elem_transpose [OF i _ assms(2), of 0] elem_transpose [OF i _ assms(2), of 1]
      elem_transpose [OF i _ assms(2), of 2] elem_transpose [OF i _ assms(2), of 3] assms(1)
    by simp_all
  show "(\<lambda>maxCoord. max_abs4 maxCoord (elem (transpose_spec N C d) i)
           (elem (transpose_spec N C d) (i + N)) (elem (transpose_spec N C d) (i + 2 * N))
           (elem (transpose_spec N C d) (i + 3 * N)))
      = (\<lambda>maxCoord. let base = i * C in max_abs4 maxCoord (elem d base) (elem d (base + 1))
           (elem d (base + 2)) (elem d (base + 3)))"
    by (simp add: r Let_def)
qed simp_all

lemma candidates_transpose:
  assumes "4 \<le> C" "length d = N * C"
  shows "candidates_channels_first (transpose_spec N C d) C N w h thr
       = candidates_boxes_first d N C w h thr"
  unfolding candidates_channels_first_def candidates_boxes_first_def
    maxCoord_transpose [OF assms] Let_def
proof (rule fold_cong)
  fix i assume "i \<in> set [0..<N]"
  then have i: "i < N" by simp
  have r: "elem (transpose_spec N C d) i = elem d (i * C)"
    "elem (transpose_spec N C d) (i + N) = elem d (i * C + 1)"
    "elem (transpose_spec N C d) (i + 2 * N) = elem d (i * C + 2)"
    "elem (transpose_spec N C d) (i + 3 * N) = elem d (i * C + 3)"
    using elem_transpose [OF i _ assms(2), of 0] elem_transpose [OF i _ assms(2), of 1]
      elem_transpose [OF i _ assms(2), of 2] elem_transpose [OF i _ assms(2), of 3] assms(1)
    by simp_all
  have r4: "4 < C \<Longrightarrow> elem (transpose_spec N C d) (i + 4 * N) = elem d (i * C + 4)"
    using elem_transpose [OF i _ assms(2), of 4] by simp
  have r5: "5 < C \<Longrightarrow> elem (transpose_spec N C d) (i + 5 * N) = elem d (i * C + 5)"
    using elem_transpose [OF i _ assms(2), of 5] by simp
  show "push_candidate (elem (transpose_spec N C d) i) (elem (transpose_spec N C d) (i + N))
          (elem (transpose_spec N C d) (i + 2 * N)) (elem (transpose_spec N C d) (i + 3 * N))
          (if 4 < C then sigmoid (elem (transpose_spec N C d) (i + 4 * N)) else Num 1)
          (if 5 < C then sigmoid (elem (transpose_spec N C d) (i + 5 * N)) else Num 1)
          (js_le (maxCoord_boxes_first d N C) (Num (3 / 2))) w h thr
      = push_candidate (elem d (i * C)) (elem d (i * C + 1)) (elem d (i * C + 2))
          (elem d (i * C + 3))
          (if 4 < C then sigmoid (elem d (i * C + 4)) else Num 1)
          (if 5 < C then sigmoid (elem d (i * C + 5)) else Num 1)
          (js_le (maxCoord_boxes_first d N C) (Num (3 / 2))) w h thr"
    using r4 r5 by (simp add: r)
qed simp_all

text \<open>
  Claim C2, amended to at least four channels. A three-dimensional output is read
  boxes-first exactly when its last axis is at most \<open>10\<close>, channels-first otherwise.
  For \<open>4 \<le> C \<le> 10\<close> channels and \<open>N > 10\<close> boxes, a buffer of \<open>N * C\<close> numbers with the
  shape \<open>[1, N, C]\<close> and the transposed buffer with the shape \<open>[1, C, N]\<close> take the two
  branches and decode to the same list of detections, whatever the input size and
  the score threshold.
\<close>

theorem detector_layouts_agree:
  assumes "4 \<le> C" "C \<le> 10" "10 < N" "length d = N * C"
  shows "parseDetectorOutput \<lparr>data = d, dims = [1, N, C]\<rparr> w h thr
       = parseDetectorOutput \<lparr>data = transpose_spec N C d, dims = [1, C, N]\<rparr> w h thr
    \<and> parseDetectorOutput \<lparr>data = d, dims = [1, N, C]\<rparr> w h thr
       = nms (candidates_boxes_first d N C w h thr) (Num (2 / 5))
    \<and> parseDetectorOutput \<lparr>data = transpose_spec N C d, dims = [1, C, N]\<rparr> w h thr
       = nms (candidates_channels_first (transpose_spec N C d) C N w h thr) (Num (2 / 5))
    \<and> parseDetectorOutput \<lparr>data = d', dims = [b, m, l]\<rparr> w h thr
       = (if l \<le> 10 then nms (candidates_boxes_first d' m l w h thr) (Num (2 / 5))
          else nms (candidates_channels_first d' m l w h thr) (Num (2 / 5)))"
proof (intro conjI)
  show bf: "parseDetectorOutput \<lparr>data = d, dims = [1, N, C]\<rparr> w h thr
       = nms (candidates_boxes_first d N C w h thr) (Num (2 / 5))"
    using assms(2) by (simp add: parseDetectorOutput_def)
  show cf: "parseDetectorOutput \<lparr>data = transpose_spec N C d, dims = [1, C, N]\<rparr> w h thr
       = nms (candidates_channels_first (transpose_spec N C d) C N w h thr) (Num (2 / 5))"
    using assms(3) by (simp add: parseDetectorOutput_def)
  show "parseDetectorOutput \<lparr>data = d, dims = [1, N, C]\<rparr> w h thr
       = parseDetectorOutput \<lparr>data = transpose_spec N C d, dims = [1, C, N]\<rparr> w h thr"
    unfolding bf cf using assms(1,4) by (simp only: candidates_transpose)
  show "parseDetectorOutput \<lparr>data = d', dims = [b, m, l]\<rparr> w h thr
       = (if l \<le> 10 then nms (candidates_boxes_first d' m l w h thr) (Num (2 / 5))
          else nms (candidates_channels_first d' m l w h thr) (Num (2 / 5)))"
    by (simp add: parseDetectorOutput_def)
qed

text \<open>Eleven boxes of four channels, the buffer holding \<open>0, 1, \<dots>, 43\<close>.\<close>

theorem detector_layouts_agree_witness:
  "parseDetectorOutput \<lparr>data = map (\<lambda>k. Num (real k)) [0..<44], dims = [1, 11, 4]\<rparr>
      (Num 640) (Num 640) (Num (3 / 10))
   = parseDetectorOutput
       \<lparr>data = transpose_spec 11 4 (map (\<lambda>k. Num (real k)) [0..<44]), dims = [1, 4, 11]\<rparr>
       (Num 640) (Num 640) (Num (3 / 10))"
proof -
  have len: "length (map (\<lambda>k. Num (real k)) [0..<44]) = 11 * 4"
    by simp
  have bounds: "(4 :: nat) \<le> 4" "(4 :: nat) \<le> 10" "(10 :: nat) < 11"
    by simp_all
  show ?thesis
    using detector_layouts_agree [OF bounds len] by blast
qed

text \<open>
  Claim C2 as it is written fails below four channels. With one channel and eleven
  boxes, all numbers \<open>0\<close>, the transposed buffer is the same buffer. Read boxes-first,
  box \<open>i\<close> takes its four coordinates from the indices \<open>i\<close> to \<open>i + 3\<close>, in range for the
  first eight boxes; read channels-first, it takes them from \<open>i\<close>, \<open>i + 11\<close>, \<open>i + 22\<close> and
  \<open>i + 33\<close>, of which only the first is in range. The two decoded lists differ.
\<close>

lemma upt_11: "[0..<11] = [0, 1, 2, 3, 4, 5, 6, 7, 8, 9, 10 :: nat]"
  by code_simp

lemma zeros_boxes_first: "candidates_boxes_first [Num 0, Num 0, Num 0, Num 0, Num 0, Num 0, Num 0, Num 0, Num 0, Num 0, Num 0] 11 (Suc 0) (Num 640) (Num 640) (Num (3/10))
   = [\<lparr>box = [Num 0, Num 0, Num 0, Num 0], score = Num 1\<rparr>,
      \<lparr>box = [Num 0, Num 0, Num 0, Num 0], score = Num 1\<rparr>,
      \<lparr>box = [Num 0, Num 0, Num 0, Num 0], score = Num 1\<rparr>,
      \<lparr>box = [Num 0, Num 0, Num 0, Num 0], score = Num 1\<rparr>,
      \<lparr>box = [Num 0, Num 0, Num 0, Num 0], score = Num 1\<rparr>,
      \<lparr>box = [Num 0, Num 0, Num 0, Num 0], score = Num 1\<rparr>,
      \<lparr>box = [Num 0, Num 0, Num 0, Num 0], score = Num 1\<rparr>,
      \<lparr>box = [Num 0, Num 0, Num 0, Num 0], score = Num 1\<rparr>,
      \<lparr>box = [Num 0, NaN, Num 0, NaN], score = Num 1\<rparr>,
      \<lparr>box = [NaN, NaN, NaN, NaN], score = Num 1\<rparr>,
      \<lparr>box = [NaN, NaN, NaN, NaN], score = Num 1\<rparr>]"
  by (simp add: candidates_boxes_first_def maxCoord_boxes_first_def max_abs4_def elem_def
      js_max_def js_le_def push_candidate_def Let_def js_sub_def upt_11)

lemma zeros_channels_first:
  "candidates_channels_first [Num 0, Num 0, Num 0, Num 0, Num 0, Num 0, Num 0, Num 0, Num 0, Num 0, Num 0] (Suc 0) 11 (Num 640) (Num 640) (Num (3 / 10))
   = [\<lparr>box = [NaN, NaN, NaN, NaN], score = Num 1\<rparr>,
      \<lparr>box = [NaN, NaN, NaN, NaN], score = Num 1\<rparr>,
      \<lparr>box = [NaN, NaN, NaN, NaN], score = Num 1\<rparr>,
      \<lparr>box = [NaN, NaN, NaN, NaN], score = Num 1\<rparr>,
      \<lparr>box = [NaN, NaN, NaN, NaN], score = Num 1\<rparr>,
      \<lparr>box = [NaN, NaN, NaN, NaN], score = Num 1\<rparr>,
      \<lparr>box = [NaN, NaN, NaN, NaN], score = Num 1\<rparr>,
      \<lparr>box = [NaN, NaN, NaN, NaN], score = Num 1\<rparr>,
      \<lparr>box = [NaN, NaN, NaN, NaN], score = Num 1\<rparr>,
      \<lparr>box = [NaN, NaN, NaN, NaN], score = Num 1\<rparr>,
      \<lparr>box = [NaN, NaN, NaN, NaN], score = Num 1\<rparr>]"
  by (simp add: candidates_channels_first_def maxCoord_channels_first_def max_abs4_def elem_def
      js_max_def js_le_def push_candidate_def Let_def js_sub_def upt_11)

lemma zeros_transpose:
  "transpose_spec 11 (Suc 0) [Num 0, Num 0, Num 0, Num 0, Num 0, Num 0, Num 0, Num 0, Num 0, Num 0, Num 0] = [Num 0, Num 0, Num 0, Num 0, Num 0, Num 0, Num 0, Num 0, Num 0, Num 0, Num 0]"
  by (simp add: transpose_spec_def elem_def upt_11)

lemma zeros_nms_boxes_first:
  "nms [\<lparr>box = [Num 0, Num 0, Num 0, Num 0], score = Num 1\<rparr>,
      \<lparr>box = [Num 0, Num 0, Num 0, Num 0], score = Num 1\<rparr>,
      \<lparr>box = [Num 0, Num 0, Num 0, Num 0], score = Num 1\<rparr>,
      \<lparr>box = [Num 0, Num 0, Num 0, Num 0], score = Num 1\<rparr>,
      \<lparr>box = [Num 0, Num 0, Num 0, Num 0], score = Num 1\<rparr>,
      \<lparr>box = [Num 0, Num 0, Num 0, Num 0], score = Num 1\<rparr>,
      \<lparr>box = [Num 0, Num 0, Num 0, Num 0], score = Num 1\<rparr>,
      \<lparr>box = [Num 0, Num 0, Num 0, Num 0], score = Num 1\<rparr>,
      \<lparr>box = [Num 0, NaN, Num 0, NaN], score = Num 1\<rparr>,
      \<lparr>box = [NaN, NaN, NaN, NaN], score = Num 1\<rparr>,
      \<lparr>box = [NaN, NaN, NaN, NaN], score = Num 1\<rparr>] (Num (2 / 5))
   = [\<lparr>box = [Num 0, Num 0, Num 0, Num 0], score = Num 1\<rparr>,
      \<lparr>box = [Num 0, Num 0, Num 0, Num 0], score = Num 1\<rparr>,
      \<lparr>box = [Num 0, Num 0, Num 0, Num 0], score = Num 1\<rparr>,
      \<lparr>box = [Num 0, Num 0, Num 0, Num 0], score = Num 1\<rparr>,
      \<lparr>box = [Num 0, Num 0, Num 0, Num 0], score = Num 1\<rparr>,
      \<lparr>box = [Num 0, Num 0, Num 0, Num 0], score = Num 1\<rparr>,
      \<lparr>box = [Num 0, Num 0, Num 0, Num 0], score = Num 1\<rparr>,
      \<lparr>box = [Num 0, Num 0, Num 0, Num 0], score = Num 1\<rparr>,
      \<lparr>box = [Num 0, NaN, Num 0, NaN], score = Num 1\<rparr>,
      \<lparr>box = [NaN, NaN, NaN, NaN], score = Num 1\<rparr>,
      \<lparr>box = [NaN, NaN, NaN, NaN], score = Num 1\<rparr>]"
  by (simp add: nms_def js_sort_def score_cmp_def js_gt_def js_sub_def suppress_filter
      overlaps_def iou_def interArea_def boxArea_def elem_def js_max_def js_min_def)

lemma zeros_nms_channels_first:
  "nms [\<lparr>box = [NaN, NaN, NaN, NaN], score = Num 1\<rparr>,
      \<lparr>box = [NaN, NaN, NaN, NaN], score = Num 1\<rparr>,
      \<lparr>box = [NaN, NaN, NaN, NaN], score = Num 1\<rparr>,
      \<lparr>box = [NaN, NaN, NaN, NaN], score = Num 1\<rparr>,
      \<lparr>box = [NaN, NaN, NaN, NaN], score = Num 1\<rparr>,
      \<lparr>box = [NaN, NaN, NaN, NaN], score = Num 1\<rparr>,
      \<lparr>box = [NaN, NaN, NaN, NaN], score = Num 1\<rparr>,
      \<lparr>box = [NaN, NaN, NaN, NaN], score = Num 1\<rparr>,
      \<lparr>box = [NaN, NaN, NaN, NaN], score = Num 1\<rparr>,
      \<lparr>box = [NaN, NaN, NaN, NaN], score = Num 1\<rparr>,
      \<lparr>box = [NaN, NaN, NaN, NaN], score = Num 1\<rparr>] (Num (2 / 5))
   = [\<lparr>box = [NaN, NaN, NaN, NaN], score = Num 1\<rparr>,
      \<lparr>box = [NaN, NaN, NaN, NaN], score = Num 1\<rparr>,
      \<lparr>box = [NaN, NaN, NaN, NaN], score = Num 1\<rparr>,
      \<lparr>box = [NaN, NaN, NaN, NaN], score = Num 1\<rparr>,
      \<lparr>box = [NaN, NaN, NaN, NaN], score = Num 1\<rparr>,
      \<lparr>box = [NaN, NaN, NaN, NaN], score = Num 1\<rparr>,
      \<lparr>box = [NaN, NaN, NaN, NaN], score = Num 1\<rparr>,
      \<lparr>box = [NaN, NaN, NaN, NaN], score = Num 1\<rparr>,
      \<lparr>box = [NaN, NaN, NaN, NaN], score = Num 1\<rparr>,
      \<lparr>box = [NaN, NaN, NaN, NaN], score = Num 1\<rparr>,
      \<lparr>box = [NaN, NaN, NaN, NaN], score = Num 1\<rparr>]"
  by (simp add: nms_def js_sort_def score_cmp_def js_gt_def js_sub_def suppress_filter
      overlaps_def iou_def interArea_def boxArea_def elem_def js_max_def js_min_def)

theorem detector_layouts_counterexample:
  "(1 :: nat) \<le> 10 \<and> (10 :: nat) < 11
   \<and> length [Num 0, Num 0, Num 0, Num 0, Num 0, Num 0, Num 0, Num 0, Num 0, Num 0, Num 0] = 11 * 1
   \<and> transpose_spec 11 1 [Num 0, Num 0, Num 0, Num 0, Num 0, Num 0, Num 0, Num 0, Num 0, Num 0, Num 0] = [Num 0, Num 0, Num 0, Num 0, Num 0, Num 0, Num 0, Num 0, Num 0, Num 0, Num 0]
   \<and> parseDetectorOutput
        \<lparr>data = [Num 0, Num 0, Num 0, Num 0, Num 0, Num 0, Num 0, Num 0, Num 0, Num 0, Num 0], dims = [1, 11, 1]\<rparr>
        (Num 640) (Num 640) (Num (3 / 10))
      = [\<lparr>box = [Num 0, Num 0, Num 0, Num 0], score = Num 1\<rparr>,
      \<lparr>box = [Num 0, Num 0, Num 0, Num 0], score = Num 1\<rparr>,
      \<lparr>box = [Num 0, Num 0, Num 0, Num 0], score = Num 1\<rparr>,
      \<lparr>box = [Num 0, Num 0, Num 0, Num 0], score = Num 1\<rparr>,
      \<lparr>box = [Num 0, Num 0, Num 0, Num 0], score = Num 1\<rparr>,
      \<lparr>box = [Num 0, Num 0, Num 0, Num 0], score = Num 1\<rparr>,
      \<lparr>box = [Num 0, Num 0, Num 0, Num 0], score = Num 1\<rparr>,
      \<lparr>box = [Num 0, Num 0, Num 0, Num 0], score = Num 1\<rparr>,
      \<lparr>box = [Num 0, NaN, Num 0, NaN], score = Num 1\<rparr>,
      \<lparr>box = [NaN, NaN, NaN, NaN], score = Num 1\<rparr>,
      \<lparr>box = [NaN, NaN, NaN, NaN], score = Num 1\<rparr>]
   \<and> parseDetectorOutput
        \<lparr>data = transpose_spec 11 1 [Num 0, Num 0, Num 0, Num 0, Num 0, Num 0, Num 0, Num 0, Num 0, Num 0, Num 0], dims = [1, 1, 11]\<rparr>
        (Num 640) (Num 640) (Num (3 / 10))
      = [\<lparr>box = [NaN, NaN, NaN, NaN], score = Num 1\<rparr>,
      \<lparr>box = [NaN, NaN, NaN, NaN], score = Num 1\<rparr>,
      \<lparr>box = [NaN, NaN, NaN, NaN], score = Num 1\<rparr>,
      \<lparr>box = [NaN, NaN, NaN, NaN], score = Num 1\<rparr>,
      \<lparr>box = [NaN, NaN, NaN, NaN], score = Num 1\<rparr>,
      \<lparr>box = [NaN, NaN, NaN, NaN], score = Num 1\<rparr>,
      \<lparr>box = [NaN, NaN, NaN, NaN], score = Num 1\<rparr>,
      \<lparr>box = [NaN, NaN, NaN, NaN], score = Num 1\<rparr>,
      \<lparr>box = [NaN, NaN, NaN, NaN], score = Num 1\<rparr>,
      \<lparr>box = [NaN, NaN, NaN, NaN], score = Num 1\<rparr>,
      \<lparr>box = [NaN, NaN, NaN, NaN], score = Num 1\<rparr>]
   \<and> parseDetectorOutput
        \<lparr>data = [Num 0, Num 0, Num 0, Num 0, Num 0, Num 0, Num 0, Num 0, Num 0, Num 0, Num 0], dims = [1, 11, 1]\<rparr>
        (Num 640) (Num 640) (Num (3 / 10))
      \<noteq> parseDetectorOutput
        \<lparr>data = transpose_spec 11 1 [Num 0, Num 0, Num 0, Num 0, Num 0, Num 0, Num 0, Num 0, Num 0, Num 0, Num 0], dims = [1, 1, 11]\<rparr>
        (Num 640) (Num 640) (Num (3 / 10))"
proof -
  have bf: "parseDetectorOutput
        \<lparr>data = [Num 0, Num 0, Num 0, Num 0, Num 0, Num 0, Num 0, Num 0, Num 0, Num 0, Num 0], dims = [1, 11, 1]\<rparr>
        (Num 640) (Num 640) (Num (3 / 10))
      = [\<lparr>box = [Num 0, Num 0, Num 0, Num 0], score = Num 1\<rparr>,
      \<lparr>box = [Num 0, Num 0, Num 0, Num 0], score = Num 1\<rparr>,
      \<lparr>box = [Num 0, Num 0, Num 0, Num 0], score = Num 1\<rparr>,
      \<lparr>box = [Num 0, Num 0, Num 0, Num 0], score = Num 1\<rparr>,
      \<lparr>box = [Num 0, Num 0, Num 0, Num 0], score = Num 1\<rparr>,
      \<lparr>box = [Num 0, Num 0, Num 0, Num 0], score = Num 1\<rparr>,
      \<lparr>box = [Num 0, Num 0, Num 0, Num 0], score = Num 1\<rparr>,
      \<lparr>box = [Num 0, Num 0, Num 0, Num 0], score = Num 1\<rparr>,
      \<lparr>box = [Num 0, NaN, Num 0, NaN], score = Num 1\<rparr>,
      \<lparr>box = [NaN, NaN, NaN, NaN], score = Num 1\<rparr>,
      \<lparr>box = [NaN, NaN, NaN, NaN], score = Num 1\<rparr>]"
    by (simp add: parseDetectorOutput_def zeros_boxes_first zeros_nms_boxes_first)
  have cf: "parseDetectorOutput
        \<lparr>data = transpose_spec 11 1 [Num 0, Num 0, Num 0, Num 0, Num 0, Num 0, Num 0, Num 0, Num 0, Num 0, Num 0], dims = [1, 1, 11]\<rparr>
        (Num 640) (Num 640) (Num (3 / 10))
      = [\<lparr>box = [NaN, NaN, NaN, NaN], score = Num 1\<rparr>,
      \<lparr>box = [NaN, NaN, NaN, NaN], score = Num 1\<rparr>,
      \<lparr>box = [NaN, NaN, NaN, NaN], score = Num 1\<rparr>,
      \<lparr>box = [NaN, NaN, NaN, NaN], score = Num 1\<rparr>,
      \<lparr>box = [NaN, NaN, NaN, NaN], score = Num 1\<rparr>,
      \<lparr>box = [NaN, NaN, NaN, NaN], score = Num 1\<rparr>,
      \<lparr>box = [NaN, NaN, NaN, NaN], score = Num 1\<rparr>,
      \<lparr>box = [NaN, NaN, NaN, NaN], score = Num 1\<rparr>,
      \<lparr>box = [NaN, NaN, NaN, NaN], score = Num 1\<rparr>,
      \<lparr>box = [NaN, NaN, NaN, NaN], score = Num 1\<rparr>,
      \<lparr>box = [NaN, NaN, NaN, NaN], score = Num 1\<rparr>]"
    by (simp add: parseDetectorOutput_def zeros_transpose zeros_channels_first
        zeros_nms_channels_first)
  show ?thesis
    unfolding bf cf by (simp add: zeros_transpose)
qed

section \<open>Properties of the character-grid decoder\<close>

lemma fold_upt_Suc: "fold f [0..<Suc n] a = f n (fold f [0..<n] a)"
  by simp

lemma js_lt_irrefl: "\<not> js_lt x x"
  by (cases x) auto

lemma js_lt_trans_not: "js_lt m v \<Longrightarrow> \<not> js_lt m x \<Longrightarrow> \<not> js_lt v x"
  by (cases m; cases v; cases x) auto

lemma js_lt_not_NaN: "js_lt m v \<Longrightarrow> v \<noteq> NaN"
  by (cases m; cases v) auto

lemma argmax_inv:
  fixes f :: "nat \<Rightarrow> jsnum"
  defines "upd \<equiv> (\<lambda>cls (maxVal, maxIdx).
      (let v = f cls in if js_gt v maxVal then (v, cls) else (maxVal, maxIdx)))"
  shows "fst (fold upd [0..<n] (NegInf, 0)) \<noteq> NaN
    \<and> (\<forall>c < n. \<not> js_lt (fst (fold upd [0..<n] (NegInf, 0))) (f c))
    \<and> (fst (fold upd [0..<n] (NegInf, 0)) = NegInf \<and> snd (fold upd [0..<n] (NegInf, 0)) = 0
       \<or> snd (fold upd [0..<n] (NegInf, 0)) < n
         \<and> f (snd (fold upd [0..<n] (NegInf, 0))) = fst (fold upd [0..<n] (NegInf, 0)))"
proof (induction n)
  case 0
  show ?case by simp
next
  case (Suc n)
  obtain mv mi where st: "fold upd [0..<n] (NegInf, 0) = (mv, mi)"
    by (cases "fold upd [0..<n] (NegInf, 0)")
  have ih: "mv \<noteq> NaN" "\<forall>c < n. \<not> js_lt mv (f c)"
    "mv = NegInf \<and> mi = 0 \<or> mi < n \<and> f mi = mv"
    using Suc.IH by (simp_all add: st)
  show ?case
  proof (cases "js_lt mv (f n)")
    case True
    have "fold upd [0..<Suc n] (NegInf, 0) = upd n (mv, mi)"
      by (simp add: st)
    also have "\<dots> = (f n, n)"
      using True by (simp add: upd_def js_gt_def)
    finally have nxt: "fold upd [0..<Suc n] (NegInf, 0) = (f n, n)" .
    have "\<not> js_lt (f n) (f c)" if "c < Suc n" for c
    proof (cases "c = n")
      case True
      then show ?thesis by (simp add: js_lt_irrefl)
    next
      case False
      then have "\<not> js_lt mv (f c)" using that ih(2) by simp
      then show ?thesis using True js_lt_trans_not by blast
    qed
    then show ?thesis
      unfolding nxt using True by (simp add: js_lt_not_NaN)
  next
    case False
    have "fold upd [0..<Suc n] (NegInf, 0) = upd n (mv, mi)"
      by (simp add: st)
    also have "\<dots> = (mv, mi)"
      using False by (simp add: upd_def js_gt_def)
    finally have nxt: "fold upd [0..<Suc n] (NegInf, 0) = (mv, mi)" .
    have "\<not> js_lt mv (f c)" if "c < Suc n" for c
      using that ih(2) False by (cases "c = n") simp_all
    then show ?thesis
      unfolding nxt using ih(1,3) by auto
  qed
qed

lemma exp_term_cases:
  assumes "mv \<noteq> NaN" "\<not> js_lt mv x"
  shows "js_exp (js_sub x mv) = NaN \<or> (\<exists>r. js_exp (js_sub x mv) = Num r \<and> 0 \<le> r \<and> r \<le> 1)"
  using assms by (cases mv; cases x) (auto simp: js_sub_def)

lemma exp_term_max:
  assumes "mv \<noteq> NaN"
  shows "js_exp (js_sub mv mv) = NaN \<or> js_exp (js_sub mv mv) = Num 1"
  using assms by (cases mv) (auto simp: js_sub_def)

lemma exp_term_NegInf: "\<not> js_lt NegInf x \<Longrightarrow> js_exp (js_sub x NegInf) = NaN"
  by (cases x) (auto simp: js_sub_def)

lemma expSum_cases:
  fixes t :: "nat \<Rightarrow> jsnum"
  assumes "\<forall>c < n. t c = NaN \<or> (\<exists>r. t c = Num r \<and> 0 \<le> r)"
  shows "fold (\<lambda>cls e. js_add e (t cls)) [0..<n] (Num 0) = NaN
    \<or> (\<exists>r. fold (\<lambda>cls e. js_add e (t cls)) [0..<n] (Num 0) = Num r \<and> 0 \<le> r
          \<and> (\<forall>c < n. \<exists>q. t c = Num q \<and> q \<le> r))"
  using assms
proof (induction n)
  case 0
  show ?case by simp
next
  case (Suc n)
  let ?S = "fold (\<lambda>cls e. js_add e (t cls)) [0..<n] (Num 0)"
  have unroll: "fold (\<lambda>cls e. js_add e (t cls)) [0..<Suc n] (Num 0) = js_add ?S (t n)"
    by simp
  have tn: "t n = NaN \<or> (\<exists>r. t n = Num r \<and> 0 \<le> r)"
    using Suc.prems by simp
  have ih: "?S = NaN \<or> (\<exists>r. ?S = Num r \<and> 0 \<le> r \<and> (\<forall>c < n. \<exists>q. t c = Num q \<and> q \<le> r))"
    using Suc by simp
  show ?case
  proof (cases "?S = NaN \<or> t n = NaN")
    case True
    then have "js_add ?S (t n) = NaN"
      by (cases ?S) auto
    then show ?thesis
      unfolding unroll by simp
  next
    case False
    then obtain r q where r: "?S = Num r" "0 \<le> r" "\<forall>c < n. \<exists>q. t c = Num q \<and> q \<le> r"
      and q: "t n = Num q" "0 \<le> q"
      using ih tn by auto
    have "js_add ?S (t n) = Num (r + q)"
      by (simp add: r q)
    moreover have "\<exists>p. t c = Num p \<and> p \<le> r + q" if "c < Suc n" for c
    proof (cases "c = n")
      case True
      then show ?thesis using q r(2) by simp
    next
      case False
      then have "c < n" using that by simp
      then obtain p where "t c = Num p" "p \<le> r" using r(3) by blast
      then show ?thesis using q(2) by auto
    qed
    ultimately show ?thesis
      unfolding unroll using r(2) q(2) by auto
  qed
qed

lemma slot_confidence_unit:
  assumes "0 < classes"
  shows "\<exists>r. slot_confidence d l slots classes slot = Num r \<and> 0 \<le> r \<and> r \<le> 1"
proof -
  define f where "f = ocr_read d l slots classes slot"
  define upd where "upd = (\<lambda>cls (maxVal, maxIdx).
      (let v = f cls in if js_gt v maxVal then (v, cls) else (maxVal, maxIdx)))"
  define mv where "mv = fst (fold upd [0..<classes] (NegInf, 0))"
  define mi where "mi = snd (fold upd [0..<classes] (NegInf, 0))"
  define t where "t = (\<lambda>cls. js_exp (js_sub (f cls) mv))"
  define S where "S = fold (\<lambda>cls e. js_add e (t cls)) [0..<classes] (Num 0)"
  have am: "ocr_argmax d l slots classes slot = fold upd [0..<classes] (NegInf, 0)"
    by (simp add: ocr_argmax_def upd_def f_def)
  have es: "ocr_expSum d l slots classes slot mv = S"
    by (simp add: ocr_expSum_def S_def t_def f_def)
  have conf: "slot_confidence d l slots classes slot
      = (if js_truthy S then js_div (Num 1) S else Num 0)"
    by (simp add: slot_confidence_def am es mv_def [symmetric] Let_def)
  have inv: "mv \<noteq> NaN" "\<forall>c < classes. \<not> js_lt mv (f c)"
    "mv = NegInf \<and> mi = 0 \<or> mi < classes \<and> f mi = mv"
    using argmax_inv [of f classes] by (simp_all add: mv_def mi_def upd_def)
  have terms: "\<forall>c < classes. t c = NaN \<or> (\<exists>r. t c = Num r \<and> 0 \<le> r)"
    using exp_term_cases [OF inv(1)] inv(2) unfolding t_def by blast
  have special: "\<exists>c < classes. t c = NaN \<or> t c = Num 1"
  proof (cases "mv = NegInf")
    case True
    then have "t 0 = NaN"
      using inv(2) assms exp_term_NegInf [of "f 0"] by (simp add: t_def)
    then show ?thesis using assms by blast
  next
    case False
    then have "mi < classes" "f mi = mv" using inv(3) by simp_all
    then show ?thesis
      using exp_term_max [OF inv(1)] unfolding t_def by metis
  qed
  have "S = NaN \<or> (\<exists>r. S = Num r \<and> 1 \<le> r)"
  proof (cases "S = NaN")
    case True
    then show ?thesis by simp
  next
    case False
    then obtain r where r: "S = Num r" "0 \<le> r" "\<forall>c < classes. \<exists>q. t c = Num q \<and> q \<le> r"
      using expSum_cases [OF terms] unfolding S_def by blast
    obtain c where "c < classes" "t c = NaN \<or> t c = Num 1"
      using special by blast
    then have "1 \<le> r" using r(3) by auto
    then show ?thesis using r(1) by simp
  qed
  then show ?thesis
    unfolding conf by auto
qed


lemma argmax_finite:
  fixes f :: "nat \<Rightarrow> jsnum" and v :: "nat \<Rightarrow> real"
  defines "upd \<equiv> (\<lambda>cls (maxVal, maxIdx).
      (let x = f cls in if js_gt x maxVal then (x, cls) else (maxVal, maxIdx)))"
  assumes "\<forall>c < n. f c = Num (v c)" "0 < n"
  shows "\<exists>i < n. fold upd [0..<n] (NegInf, 0) = (Num (v i), i)
          \<and> (\<forall>c < n. v c \<le> v i) \<and> (\<forall>c < i. v c < v i)"
  using assms(2,3)
proof (induction n)
  case 0
  then show ?case by simp
next
  case (Suc n)
  show ?case
  proof (cases "n = 0")
    case True
    have "fold upd [0..<Suc n] (NegInf, 0) = upd 0 (NegInf, 0)"
      using True by simp
    also have "\<dots> = (Num (v 0), 0)"
      using Suc.prems True by (simp add: upd_def js_gt_def)
    finally show ?thesis
      using True by auto
  next
    case False
    then obtain i where i: "i < n" "fold upd [0..<n] (NegInf, 0) = (Num (v i), i)"
      "\<forall>c < n. v c \<le> v i" "\<forall>c < i. v c < v i"
      using Suc by auto
    have fn: "f n = Num (v n)" using Suc.prems by simp
    have unroll: "fold upd [0..<Suc n] (NegInf, 0) = upd n (Num (v i), i)"
      by (simp add: i(2))
    show ?thesis
    proof (cases "v i < v n")
      case True
      have "upd n (Num (v i), i) = (Num (v n), n)"
        using True by (simp add: upd_def js_gt_def fn)
      moreover have "\<forall>c < Suc n. v c \<le> v n"
        using i(3) True by (auto simp: less_Suc_eq)
      moreover have "\<forall>c < n. v c < v n"
        using i(3) True by fastforce
      ultimately show ?thesis
        unfolding unroll by blast
    next
      case False
      have "upd n (Num (v i), i) = (Num (v i), i)"
        using False by (simp add: upd_def js_gt_def fn)
      moreover have "\<forall>c < Suc n. v c \<le> v i"
        using i(3) False by (auto simp: less_Suc_eq)
      ultimately show ?thesis
        unfolding unroll using i(1,4) by (metis less_SucI)
    qed
  qed
qed

lemma expSum_finite:
  fixes f :: "nat \<Rightarrow> jsnum" and v :: "nat \<Rightarrow> real"
  assumes "\<forall>c < n. f c = Num (v c)"
  shows "fold (\<lambda>cls e. js_add e (js_exp (js_sub (f cls) (Num M)))) [0..<n] (Num 0)
       = Num (\<Sum>c < n. exp (v c - M))"
  using assms by (induction n) (simp_all add: js_sub_Num)




lemma ocr_classes_37: "ocr_classes = 37"
  by (simp add: ocr_classes_def OCR_ALPHABET_def)







lemma ocr_loop_upto:
  fixes d :: "jsnum list" and l :: layout and slots classes :: nat
  assumes "0 < classes"
  defines "F \<equiv> (\<lambda>slot (txt, confidenceSum).
             (let c = slot_char d l slots classes slot
              in (if c \<noteq> OCR_PAD then txt @ c else txt,
                  js_add confidenceSum (slot_confidence d l slots classes slot))))"
  shows "fold F [0..<n] ([], Num 0)
       = (concat (map (\<lambda>slot. if slot_char d l slots classes slot \<noteq> OCR_PAD
                                then slot_char d l slots classes slot else []) [0..<n]),
          Num (\<Sum>slot < n. the_num (slot_confidence d l slots classes slot)))"
proof (induction n)
  case 0
  show ?case by simp
next
  case (Suc n)
  obtain r where r: "slot_confidence d l slots classes n = Num r"
    using slot_confidence_unit [OF assms(1)] by blast
  have "fold F [0..<Suc n] ([], Num 0) = F n (fold F [0..<n] ([], Num 0))"
    by simp
  also have "\<dots> = F n (concat (map (\<lambda>slot. if slot_char d l slots classes slot \<noteq> OCR_PAD
                                then slot_char d l slots classes slot else []) [0..<n]),
          Num (\<Sum>slot < n. the_num (slot_confidence d l slots classes slot)))"
    by (simp only: Suc.IH)
  also have "\<dots> = (concat (map (\<lambda>slot. if slot_char d l slots classes slot \<noteq> OCR_PAD
                                then slot_char d l slots classes slot else []) [0..<Suc n]),
          Num (\<Sum>slot < Suc n. the_num (slot_confidence d l slots classes slot)))"
    by (simp add: F_def Let_def r)
  finally show ?case .
qed

lemma ocr_loop_closed:
  assumes "0 < classes"
  shows "ocr_loop d l slots classes
       = (concat (map (\<lambda>slot. if slot_char d l slots classes slot \<noteq> OCR_PAD
                                then slot_char d l slots classes slot else []) [0..<slots]),
          Num (\<Sum>slot < slots. the_num (slot_confidence d l slots classes slot)))"
  unfolding ocr_loop_def using ocr_loop_upto [OF assms, where n = slots] by simp

lemma slot_char_length: "length (slot_char d l slots ocr_classes slot) = 1"
proof -
  have idx: "snd (ocr_argmax d l slots ocr_classes slot) < ocr_classes"
    using argmax_inv [of "ocr_read d l slots ocr_classes slot" ocr_classes]
    by (auto simp: ocr_argmax_def ocr_classes_37)
  then show ?thesis
    by (simp add: slot_char_def ocr_classes_def)
qed

lemma concat_map_if:
  "concat (map (\<lambda>s. if P s then g s else []) xs) = concat (map g (filter P xs))"
  by (induction xs) simp_all

lemma length_concat_unit:
  "\<forall>y \<in> set ys. length (g y) = 1 \<Longrightarrow> length (concat (map g ys)) = length ys"
  by (induction ys) simp_all

lemma length_filter_neq_upt:
  "k < n \<Longrightarrow> length (filter (\<lambda>j. j \<noteq> k) [0..<n]) = n - 1"
proof (induction n)
  case 0
  then show ?case by simp
next
  case (Suc n)
  show ?case
  proof (cases "k = n")
    case True
    have "filter (\<lambda>j. j \<noteq> n) [0..<n] = [0..<n]"
      by (rule filter_True) simp
    then show ?thesis
      using True by simp
  next
    case False
    then have "k < n" using Suc.prems by simp
    then show ?thesis
      using Suc.IH False by simp
  qed
qed

lemma decode_fields:
  "dtext (decodeOcrOutput output)
     = concat (map (\<lambda>slot.
         if slot_char (data output) (ocr_layout (dims output)) (ocr_slots (dims output))
              ocr_classes slot = OCR_PAD then []
         else slot_char (data output) (ocr_layout (dims output)) (ocr_slots (dims output))
              ocr_classes slot) [0..<ocr_slots (dims output)])"
  "confidence (decodeOcrOutput output)
     = (if ocr_slots (dims output) = 0 then None
        else Some (Num ((\<Sum>slot < ocr_slots (dims output).
               the_num (slot_confidence (data output) (ocr_layout (dims output))
                          (ocr_slots (dims output)) ocr_classes slot))
             / real (ocr_slots (dims output)) * 100)))"
proof -
  have pos: "0 < ocr_classes" by (simp add: ocr_classes_37)
  have swap: "(\<lambda>slot. if f slot \<noteq> OCR_PAD then f slot else []) = (\<lambda>slot. if f slot = OCR_PAD then [] else f slot)"
    for f :: "nat \<Rightarrow> string"
    by auto
  show "dtext (decodeOcrOutput output)
     = concat (map (\<lambda>slot.
         if slot_char (data output) (ocr_layout (dims output)) (ocr_slots (dims output))
              ocr_classes slot = OCR_PAD then []
         else slot_char (data output) (ocr_layout (dims output)) (ocr_slots (dims output))
              ocr_classes slot) [0..<ocr_slots (dims output)])"
    by (simp add: decodeOcrOutput_def ocr_loop_closed [OF pos] Let_def swap)
  show "confidence (decodeOcrOutput output)
     = (if ocr_slots (dims output) = 0 then None
        else Some (Num ((\<Sum>slot < ocr_slots (dims output).
               the_num (slot_confidence (data output) (ocr_layout (dims output))
                          (ocr_slots (dims output)) ocr_classes slot))
             / real (ocr_slots (dims output)) * 100)))"
    by (simp add: decodeOcrOutput_def ocr_loop_closed [OF pos] Let_def)
qed

lemma decode_one_pad:
  assumes nine: "ocr_slots (dims output) = 9" and k: "k < 9"
    and pad: "slot_char (data output) (ocr_layout (dims output)) 9 ocr_classes k = OCR_PAD"
    and rest: "\<forall>j < 9. j \<noteq> k \<longrightarrow>
        slot_char (data output) (ocr_layout (dims output)) 9 ocr_classes j \<noteq> OCR_PAD"
  shows "dtext (decodeOcrOutput output)
       = concat (map (slot_char (data output) (ocr_layout (dims output)) 9 ocr_classes)
           (filter (\<lambda>j. j \<noteq> k) [0..<9]))"
    and "length (dtext (decodeOcrOutput output)) = 8"
proof -
  let ?sc = "slot_char (data output) (ocr_layout (dims output)) 9 ocr_classes"
  have "dtext (decodeOcrOutput output)
      = concat (map (\<lambda>slot. if ?sc slot \<noteq> OCR_PAD then ?sc slot else []) [0..<9])"
    unfolding decode_fields(1) nine by (rule arg_cong [where f = concat]) auto
  also have "\<dots> = concat (map ?sc (filter (\<lambda>slot. ?sc slot \<noteq> OCR_PAD) [0..<9]))"
    by (rule concat_map_if)
  also have "filter (\<lambda>slot. ?sc slot \<noteq> OCR_PAD) [0..<9] = filter (\<lambda>j. j \<noteq> k) [0..<9]"
    using pad rest by (intro filter_cong) auto
  finally show t: "dtext (decodeOcrOutput output)
       = concat (map ?sc (filter (\<lambda>j. j \<noteq> k) [0..<9]))" .
  have "length (concat (map ?sc (filter (\<lambda>j. j \<noteq> k) [0..<9])))
      = length (filter (\<lambda>j. j \<noteq> k) [0..<9])"
    by (intro length_concat_unit) (simp add: slot_char_length)
  also have "\<dots> = 8"
    using length_filter_neq_upt [OF k] by simp
  finally show "length (dtext (decodeOcrOutput output)) = 8"
    unfolding t .
qed


text \<open>
  Claim C3. The decoded text is the concatenation, in slot order, of the characters
  of the slots whose character is not the padding symbol; a padding slot contributes
  the empty string. The confidence is \<open>null\<close> for zero slots and otherwise the sum of
  the per-slot confidences of all slots, padding slots included, divided by the slot
  count and multiplied by \<open>100\<close>; every per-slot confidence is a number between \<open>0\<close>
  and \<open>1\<close>. In particular, with nine slots of which exactly slot \<open>k\<close> decodes to the
  padding symbol, the text has the eight other characters and the confidence is
  still the average over all nine slots.
\<close>

theorem decodeOcrOutput_pad_and_average:
  fixes out :: tensor
  defines "d \<equiv> data out"
    and "l \<equiv> ocr_layout (dims out)"
    and "slots \<equiv> ocr_slots (dims out)"
  shows "dtext (decodeOcrOutput out)
       = concat (map (\<lambda>slot. if slot_char d l slots ocr_classes slot = OCR_PAD then []
                              else slot_char d l slots ocr_classes slot) [0..<slots])
    \<and> confidence (decodeOcrOutput out)
       = (if slots = 0 then None
          else Some (Num ((\<Sum>slot < slots. the_num (slot_confidence d l slots ocr_classes slot))
                          / real slots * 100)))
    \<and> (\<forall>slot. \<exists>r. slot_confidence d l slots ocr_classes slot = Num r \<and> 0 \<le> r \<and> r \<le> 1)
    \<and> (slots = 9 \<and> k < 9 \<and> slot_char d l slots ocr_classes k = OCR_PAD
         \<and> (\<forall>j < 9. j \<noteq> k \<longrightarrow> slot_char d l slots ocr_classes j \<noteq> OCR_PAD)
        \<longrightarrow> dtext (decodeOcrOutput out)
              = concat (map (slot_char d l slots ocr_classes) (filter (\<lambda>j. j \<noteq> k) [0..<9]))
            \<and> length (dtext (decodeOcrOutput out)) = 8
            \<and> confidence (decodeOcrOutput out)
              = Some (Num ((\<Sum>slot < 9. the_num (slot_confidence d l slots ocr_classes slot))
                           / 9 * 100)))"
proof (intro conjI allI impI)
  show "dtext (decodeOcrOutput out)
       = concat (map (\<lambda>slot. if slot_char d l slots ocr_classes slot = OCR_PAD then []
                              else slot_char d l slots ocr_classes slot) [0..<slots])"
    unfolding d_def l_def slots_def by (rule decode_fields(1))
  show conf: "confidence (decodeOcrOutput out)
       = (if slots = 0 then None
          else Some (Num ((\<Sum>slot < slots. the_num (slot_confidence d l slots ocr_classes slot))
                          / real slots * 100)))"
    unfolding d_def l_def slots_def by (rule decode_fields(2))
  show "\<exists>r. slot_confidence d l slots ocr_classes slot = Num r \<and> 0 \<le> r \<and> r \<le> 1" for slot
    by (rule slot_confidence_unit) (simp add: ocr_classes_37)
  assume one: "slots = 9 \<and> k < 9 \<and> slot_char d l slots ocr_classes k = OCR_PAD
         \<and> (\<forall>j < 9. j \<noteq> k \<longrightarrow> slot_char d l slots ocr_classes j \<noteq> OCR_PAD)"
  have nine: "ocr_slots (dims out) = 9" and k: "k < 9"
    using one by (simp_all add: slots_def)
  have pad: "slot_char (data out) (ocr_layout (dims out)) 9 ocr_classes k = OCR_PAD"
    using one unfolding d_def l_def slots_def nine by blast
  have rest: "\<forall>j < 9. j \<noteq> k \<longrightarrow>
        slot_char (data out) (ocr_layout (dims out)) 9 ocr_classes j \<noteq> OCR_PAD"
    using one unfolding d_def l_def slots_def nine by blast
  show "dtext (decodeOcrOutput out)
      = concat (map (slot_char d l slots ocr_classes) (filter (\<lambda>j. j \<noteq> k) [0..<9]))"
    using decode_one_pad(1) [OF nine k pad rest] one by (simp add: d_def l_def)
  show "length (dtext (decodeOcrOutput out)) = 8"
    by (rule decode_one_pad(2) [OF nine k pad rest])
  show "confidence (decodeOcrOutput out)
      = Some (Num ((\<Sum>slot < 9. the_num (slot_confidence d l slots ocr_classes slot)) / 9 * 100))"
    using conf one by simp
qed

text \<open>
  Nine slots, slots-first; slot \<open>s\<close> scores \<open>1\<close> for one class and \<open>0\<close> for the others.
  The classes are those of \<open>2, 3, 4, 5, 6\<close>, the padding symbol, and \<open>7, 8, 9\<close>.
\<close>

lemma upt_9: "[0..<9] = [0, 1, 2, 3, 4, 5, 6, 7, 8 :: nat]"
  by code_simp

lemma one_hot_argmax:
  assumes reads: "\<forall>c < classes. ocr_read d l slots classes slot c = Num (if c = t then 1 else 0)"
    and t: "t < classes"
  shows "ocr_argmax d l slots classes slot = (Num 1, t)"
proof -
  obtain i where i: "i < classes"
    "ocr_argmax d l slots classes slot = (Num (if i = t then 1 else 0), i)"
    "\<forall>c < classes. (if c = t then 1 else 0 :: real) \<le> (if i = t then 1 else 0)"
    using argmax_finite [OF reads] t unfolding ocr_argmax_def by fastforce
  have "i = t"
    using i(3) t by (metis not_one_le_zero)
  then show ?thesis
    using i(2) by simp
qed

lemma example_reads:
  assumes "s < 9" "c < 37"
  shows "ocr_read (map (\<lambda>k. Num (if k mod 37 = [2, 3, 4, 5, 6, 36, 7, 8, 9] ! (k div 37) then 1 else 0)) [0..<333]) SlotsFirst 9 37 s c
       = Num (if c = [2, 3, 4, 5, 6, 36, 7, 8, 9] ! s then 1 else 0)"
proof -
  have "s * 37 + c < 333"
    using assms by simp
  then show ?thesis
    using assms by (simp add: ocr_read_def ocr_idx_def elem_def)
qed

lemma example_chars:
  "map (slot_char (map (\<lambda>k. Num (if k mod 37 = [2, 3, 4, 5, 6, 36, 7, 8, 9] ! (k div 37) then 1 else 0)) [0..<333]) SlotsFirst 9 ocr_classes) [0..<9]
   = [''2'', ''3'', ''4'', ''5'', ''6'', ''_'', ''7'', ''8'', ''9'']"
proof -
  have am: "ocr_argmax (map (\<lambda>k. Num (if k mod 37 = [2, 3, 4, 5, 6, 36, 7, 8, 9] ! (k div 37) then 1 else 0)) [0..<333]) SlotsFirst 9 37 s = (Num 1, [2, 3, 4, 5, 6, 36, 7, 8, 9] ! s)"
    if "s < 9" for s
  proof (rule one_hot_argmax)
    show "\<forall>c < 37. ocr_read (map (\<lambda>k. Num (if k mod 37 = [2, 3, 4, 5, 6, 36, 7, 8, 9] ! (k div 37) then 1 else 0)) [0..<333]) SlotsFirst 9 37 s c
        = Num (if c = [2, 3, 4, 5, 6, 36, 7, 8, 9] ! s then 1 else 0)"
      using example_reads [OF that] by blast
    have "s \<in> set [0..<9]" using that by simp
    then show "[2, 3, 4, 5, 6, 36, 7, 8, 9] ! s < (37 :: nat)"
      unfolding upt_9 by auto
  qed
  show ?thesis
    by (simp add: upt_9 slot_char_def ocr_classes_37 am OCR_ALPHABET_def)
qed

theorem decodeOcrOutput_pad_and_average_witness:
  "dtext (decodeOcrOutput \<lparr>data = map (\<lambda>k. Num (if k mod 37 = [2, 3, 4, 5, 6, 36, 7, 8, 9] ! (k div 37) then 1 else 0)) [0..<333], dims = [1, 9, 37]\<rparr>) = ''23456789''
   \<and> length (dtext (decodeOcrOutput \<lparr>data = map (\<lambda>k. Num (if k mod 37 = [2, 3, 4, 5, 6, 36, 7, 8, 9] ! (k div 37) then 1 else 0)) [0..<333], dims = [1, 9, 37]\<rparr>)) = 8
   \<and> confidence (decodeOcrOutput \<lparr>data = map (\<lambda>k. Num (if k mod 37 = [2, 3, 4, 5, 6, 36, 7, 8, 9] ! (k div 37) then 1 else 0)) [0..<333], dims = [1, 9, 37]\<rparr>)
     = Some (Num ((\<Sum>slot < 9. the_num (slot_confidence (map (\<lambda>k. Num (if k mod 37 = [2, 3, 4, 5, 6, 36, 7, 8, 9] ! (k div 37) then 1 else 0)) [0..<333])
                                    SlotsFirst 9 ocr_classes slot)) / 9 * 100))"
proof -
  let ?d = "map (\<lambda>k. Num (if k mod 37 = [2, 3, 4, 5, 6, 36, 7, 8, 9] ! (k div 37) then 1 else 0)) [0..<333]"
  let ?out = "\<lparr>data = ?d, dims = [1, 9, 37]\<rparr>"
  have shape: "ocr_slots [b, 9, 37] = 9" "ocr_layout [b, 9, 37] = SlotsFirst" for b :: nat
    by (simp_all add: ocr_slots_def ocr_layout_def ocr_classes_37)
  have chars: "map (slot_char ?d SlotsFirst 9 ocr_classes) [0..<9]
      = [''2'', ''3'', ''4'', ''5'', ''6'', ''_'', ''7'', ''8'', ''9'']"
    by (rule example_chars)
  have each: "slot_char ?d SlotsFirst 9 ocr_classes j
      = [''2'', ''3'', ''4'', ''5'', ''6'', ''_'', ''7'', ''8'', ''9''] ! j" if "j < 9" for j
    using arg_cong [OF chars, of "\<lambda>xs. xs ! j"] that by simp
  have pad: "slot_char ?d SlotsFirst 9 ocr_classes 5 = OCR_PAD"
    using each [of 5] by (simp add: OCR_PAD_def)
  have rest: "\<forall>j < 9. j \<noteq> 5 \<longrightarrow> slot_char ?d SlotsFirst 9 ocr_classes j \<noteq> OCR_PAD"
  proof (intro allI impI)
    fix j :: nat assume j: "j < 9" "j \<noteq> 5"
    then have "j \<in> set [0..<9]" by simp
    then show "slot_char ?d SlotsFirst 9 ocr_classes j \<noteq> OCR_PAD"
      unfolding upt_9 using j(2) each [OF j(1)] by (auto simp: OCR_PAD_def)
  qed
  have keep: "filter (\<lambda>j. j \<noteq> 5) [0..<9] = [0, 1, 2, 3, 4, 6, 7, 8 :: nat]"
    by (simp add: upt_9)
  have hyp: "ocr_slots (dims ?out) = 9 \<and> (5 :: nat) < 9
      \<and> slot_char (data ?out) (ocr_layout (dims ?out)) (ocr_slots (dims ?out)) ocr_classes 5
          = OCR_PAD
      \<and> (\<forall>j < 9. j \<noteq> 5 \<longrightarrow>
           slot_char (data ?out) (ocr_layout (dims ?out)) (ocr_slots (dims ?out)) ocr_classes j
             \<noteq> OCR_PAD)"
    using pad rest by (simp add: shape)
  have chars8: "concat (map (slot_char ?d SlotsFirst 9 ocr_classes) [0, 1, 2, 3, 4, 6, 7, 8])
      = ''23456789''"
    using each [of 0] each [of 1] each [of 2] each [of 3] each [of 4] each [of 6] each [of 7]
      each [of 8]
    by simp
  note inst = decodeOcrOutput_pad_and_average
      [of ?out 5, THEN conjunct2, THEN conjunct2, THEN conjunct2, THEN mp, OF hyp,
       unfolded tensor.select_convs shape keep]
  have "dtext (decodeOcrOutput ?out) = ''23456789''"
    using inst [THEN conjunct1] unfolding chars8 .
  moreover have "length (dtext (decodeOcrOutput ?out)) = 8"
    using inst [THEN conjunct2, THEN conjunct1] .
  moreover have "confidence (decodeOcrOutput ?out)
        = Some (Num ((\<Sum>slot < 9. the_num (slot_confidence ?d SlotsFirst 9 ocr_classes slot))
                     / 9 * 100))"
    using inst [THEN conjunct2, THEN conjunct2] .
  ultimately show ?thesis
    by (intro conjI)
qed







text \<open>
  A slot that scores \<open>1\<close> for one class and \<open>0\<close> for the others has the confidence
  \<open>1 / (1 + (classes - 1) / e)\<close>.
\<close>

lemma one_hot_sum:
  assumes "t < n"
  shows "(\<Sum>c < n. exp ((if c = t then 1 else 0) - 1 :: real)) = 1 + (real n - 1) * exp (- 1)"
proof -
  have "(\<Sum>c < n. exp ((if c = t then 1 else 0) - 1 :: real))
      = exp ((if t = t then 1 else 0) - 1) + (\<Sum>c \<in> {..<n} - {t}. exp ((if c = t then 1 else 0) - 1))"
    using assms by (intro sum.remove) simp_all
  also have "(\<Sum>c \<in> {..<n} - {t}. exp ((if c = t then 1 else 0) - 1 :: real))
      = (\<Sum>c \<in> {..<n} - {t}. exp (- 1))"
    by (intro sum.cong) simp_all
  also have "\<dots> = (real n - 1) * exp (- 1)"
    using assms by (simp add: of_nat_diff)
  finally show ?thesis
    by simp
qed

lemma one_hot_confidence:
  assumes reads: "\<forall>c < classes. ocr_read d l slots classes slot c = Num (if c = t then 1 else 0)"
    and t: "t < classes"
  shows "slot_confidence d l slots classes slot = Num (1 / (1 + (real classes - 1) * exp (- 1)))"
proof -
  have am: "ocr_argmax d l slots classes slot = (Num 1, t)"
    using reads t by (rule one_hot_argmax)
  have es: "ocr_expSum d l slots classes slot (Num 1)
      = Num (\<Sum>c < classes. exp ((if c = t then 1 else 0) - 1))"
    unfolding ocr_expSum_def using reads by (rule expSum_finite)
  have "0 \<le> (real classes - 1) * exp (- 1)"
    using t by simp
  then have pos: "0 < 1 + (real classes - 1) * exp (- 1)"
    by linarith
  show ?thesis
    using pos by (simp add: slot_confidence_def am es one_hot_sum [OF t])
qed

lemma example_confidence:
  assumes "s < 9"
  shows "slot_confidence (map (\<lambda>k. Num (if k mod 37 = [2, 3, 4, 5, 6, 36, 7, 8, 9] ! (k div 37) then 1 else 0)) [0..<333]) SlotsFirst 9 37 s
       = Num (1 / (1 + 36 * exp (- 1)))"
proof -
  have "s \<in> set [0..<9]" using assms by simp
  then have t: "[2, 3, 4, 5, 6, 36, 7, 8, 9] ! s < (37 :: nat)"
    unfolding upt_9 by auto
  have reads: "\<forall>c < 37. ocr_read (map (\<lambda>k. Num (if k mod 37 = [2, 3, 4, 5, 6, 36, 7, 8, 9] ! (k div 37) then 1 else 0)) [0..<333]) SlotsFirst 9 37 s c
        = Num (if c = [2, 3, 4, 5, 6, 36, 7, 8, 9] ! s then 1 else 0)"
    using example_reads [OF assms] by blast
  show ?thesis
    using one_hot_confidence [OF reads t] by simp
qed

text \<open>
  Claim C9. When the shape is not three-dimensional, or neither its middle nor its
  last axis is \<open>37\<close>, the decoder does not fail: it reads the buffer as nine slots of 37
  classes, slots-first, the score of class \<open>cls\<close> in slot \<open>slot\<close> at index
  \<open>slot * 37 + cls\<close>. The text is the concatenation of the characters of the nine slots
  that are not the padding symbol, at most nine characters; the confidence is the sum
  of the nine per-slot confidences divided by \<open>9\<close> and multiplied by \<open>100\<close>, a number
  from \<open>0\<close> to \<open>100\<close>, never \<open>null\<close>. The result is the result for the shape
  \<open>[1, 9, 37]\<close>.
\<close>

theorem decodeOcrOutput_shape_mismatch:
  assumes "length ds \<noteq> 3 \<or> (ds ! 1 \<noteq> 37 \<and> ds ! 2 \<noteq> 37)"
  shows "ocr_slots ds = 9 \<and> ocr_classes = 37 \<and> ocr_layout ds = SlotsFirst
    \<and> ocr_read d SlotsFirst 9 37 slot cls = elem d (slot * 37 + cls)
    \<and> dtext (decodeOcrOutput \<lparr>data = d, dims = ds\<rparr>)
        = concat (map (\<lambda>slot. if slot_char d SlotsFirst 9 37 slot = OCR_PAD then []
                               else slot_char d SlotsFirst 9 37 slot) [0..<9])
    \<and> confidence (decodeOcrOutput \<lparr>data = d, dims = ds\<rparr>)
        = Some (Num ((\<Sum>slot < 9. the_num (slot_confidence d SlotsFirst 9 37 slot)) / 9 * 100))
    \<and> decodeOcrOutput \<lparr>data = d, dims = ds\<rparr> = decodeOcrOutput \<lparr>data = d, dims = [1, 9, 37]\<rparr>
    \<and> length (dtext (decodeOcrOutput \<lparr>data = d, dims = ds\<rparr>)) \<le> 9
    \<and> (\<exists>c. confidence (decodeOcrOutput \<lparr>data = d, dims = ds\<rparr>) = Some (Num c)
           \<and> 0 \<le> c \<and> c \<le> 100)"
proof -
  have slots: "ocr_slots ds = 9" and lay: "ocr_layout ds = SlotsFirst"
    using assms by (auto simp: ocr_slots_def ocr_layout_def ocr_classes_37 OCR_INPUT_maxSlots_def)
  have slots': "ocr_slots [1, 9, 37] = 9" and lay': "ocr_layout [1, 9, 37] = SlotsFirst"
    by (simp_all add: ocr_slots_def ocr_layout_def ocr_classes_37)
  have same: "decodeOcrOutput \<lparr>data = d, dims = ds\<rparr> = decodeOcrOutput \<lparr>data = d, dims = [1, 9, 37]\<rparr>"
    unfolding decodeOcrOutput_def tensor.select_convs slots lay slots' lay' ..
  have read: "ocr_read d SlotsFirst 9 37 slot cls = elem d (slot * 37 + cls)"
    by (simp add: ocr_read_def ocr_idx_def)
  let ?sc = "slot_char d SlotsFirst 9 37"
  have dt: "dtext (decodeOcrOutput \<lparr>data = d, dims = ds\<rparr>)
      = concat (map (\<lambda>slot. if ?sc slot = OCR_PAD then [] else ?sc slot) [0..<9])"
    by (rule decode_fields(1) [of "\<lparr>data = d, dims = ds\<rparr>",
          unfolded tensor.select_convs slots lay ocr_classes_37])
  have "length (concat (map g [0..<n])) \<le> n"
    if "\<forall>j. length (g j) \<le> 1" for g :: "nat \<Rightarrow> string" and n
  proof (induction n)
    case 0
    show ?case by simp
  next
    case (Suc n)
    then show ?case
      using that [rule_format, of n] by simp
  qed
  then have "length (concat (map (\<lambda>slot. if ?sc slot = OCR_PAD then [] else ?sc slot) [0..<9])) \<le> 9"
    using slot_char_length [of d SlotsFirst 9] by (simp add: ocr_classes_37)
  then have len: "length (dtext (decodeOcrOutput \<lparr>data = d, dims = ds\<rparr>)) \<le> 9"
    unfolding dt .
  let ?S = "\<Sum>slot < 9. the_num (slot_confidence d SlotsFirst 9 37 slot)"
  have conf: "confidence (decodeOcrOutput \<lparr>data = d, dims = ds\<rparr>) = Some (Num (?S / 9 * 100))"
    using decode_fields(2) [of "\<lparr>data = d, dims = ds\<rparr>",
          unfolded tensor.select_convs slots lay ocr_classes_37]
    by simp
  have unit: "0 \<le> the_num (slot_confidence d SlotsFirst 9 37 slot)
      \<and> the_num (slot_confidence d SlotsFirst 9 37 slot) \<le> 1" for slot
    using slot_confidence_unit [of 37 d SlotsFirst 9 slot] by auto
  have "0 \<le> ?S"
    using unit by (intro sum_nonneg) simp
  moreover have "?S \<le> (\<Sum>slot < (9 :: nat). (1 :: real))"
    using unit by (intro sum_mono) simp
  ultimately have "0 \<le> ?S / 9 * 100" "?S / 9 * 100 \<le> 100"
    by simp_all
  then have "\<exists>c. confidence (decodeOcrOutput \<lparr>data = d, dims = ds\<rparr>) = Some (Num c)
      \<and> 0 \<le> c \<and> c \<le> 100"
    using conf by blast
  then show ?thesis
    using slots lay same len read dt conf by (simp add: ocr_classes_37)
qed

text \<open>
  A two-dimensional output of shape \<open>[9, 37]\<close> with the one-hot grid above: the decoder
  reads the classes of \<open>2, 3, 4, 5, 6\<close>, the padding symbol and \<open>7, 8, 9\<close>.
\<close>

theorem decodeOcrOutput_shape_mismatch_witness:
  "decodeOcrOutput \<lparr>data = map (\<lambda>k. Num (if k mod 37 = [2, 3, 4, 5, 6, 36, 7, 8, 9] ! (k div 37) then 1 else 0)) [0..<333], dims = [9, 37]\<rparr>
   = \<lparr>dtext = ''23456789'', confidence = Some (Num (100 / (1 + 36 * exp (- 1))))\<rparr>"
proof -
  let ?d = "map (\<lambda>k. Num (if k mod 37 = [2, 3, 4, 5, 6, 36, 7, 8, 9] ! (k div 37) then 1 else 0)) [0..<333]"
  have shape: "length [9, 37 :: nat] \<noteq> 3 \<or> ([9, 37 :: nat] ! 1 \<noteq> 37 \<and> [9, 37 :: nat] ! 2 \<noteq> 37)"
    by simp
  note inst = decodeOcrOutput_shape_mismatch [OF shape, of ?d 0 0]
  note rest = inst [THEN conjunct2, THEN conjunct2, THEN conjunct2, THEN conjunct2]
  have chars: "map (slot_char ?d SlotsFirst 9 37) [0..<9]
      = [''2'', ''3'', ''4'', ''5'', ''6'', ''_'', ''7'', ''8'', ''9'']"
    using example_chars by (simp only: ocr_classes_37)
  have "concat (map (\<lambda>slot. if slot_char ?d SlotsFirst 9 37 slot = OCR_PAD then []
                               else slot_char ?d SlotsFirst 9 37 slot) [0..<9])
      = concat (map (\<lambda>c. if c = OCR_PAD then [] else c) (map (slot_char ?d SlotsFirst 9 37) [0..<9]))"
    by (simp only: map_map comp_def)
  also have "\<dots> = ''23456789''"
    unfolding chars by (simp add: OCR_PAD_def)
  finally have chars8: "concat (map (\<lambda>slot. if slot_char ?d SlotsFirst 9 37 slot = OCR_PAD then []
                               else slot_char ?d SlotsFirst 9 37 slot) [0..<9]) = ''23456789''" .
  have dt: "dtext (decodeOcrOutput \<lparr>data = ?d, dims = [9, 37]\<rparr>) = ''23456789''"
    using rest [THEN conjunct1] unfolding chars8 .
  define x :: real where "x = 1 + 36 * exp (- 1)"
  have "(\<Sum>slot < 9. the_num (slot_confidence ?d SlotsFirst 9 37 slot))
      = (\<Sum>slot < (9 :: nat). 1 / x)"
    unfolding x_def by (intro sum.cong) (simp_all add: example_confidence)
  also have "\<dots> = 9 * (1 / x)"
    by simp
  finally have "(\<Sum>slot < 9. the_num (slot_confidence ?d SlotsFirst 9 37 slot)) / 9 * 100
      = 100 / x"
    by simp
  then have total: "(\<Sum>slot < 9. the_num (slot_confidence ?d SlotsFirst 9 37 slot)) / 9 * 100
      = 100 / (1 + 36 * exp (- 1))"
    unfolding x_def .
  have conf: "confidence (decodeOcrOutput \<lparr>data = ?d, dims = [9, 37]\<rparr>)
      = Some (Num (100 / (1 + 36 * exp (- 1))))"
    using rest [THEN conjunct2, THEN conjunct1] unfolding total .
  show ?thesis
    using dt conf by (cases "decodeOcrOutput \<lparr>data = ?d, dims = [9, 37]\<rparr>") simp
qed

section \<open>Properties of the plate extractor\<close>

text \<open>
  Blanking every character outside \<open>[A-Z0-9]\<close> and then deleting the white space leaves
  the letters and digits of the upper-cased text, in order.
\<close>

lemma alnum_not_space: "is_alnum c \<Longrightarrow> \<not> is_space c"
  by (auto simp: is_alnum_def is_AZ_def is_digit_def is_space_def)

lemma space_is_space: "is_space (CHR '' '')"
  by (simp add: is_space_def)

lemma blank_then_strip:
  "filter (\<lambda>c. \<not> is_space c) (map (\<lambda>c. if is_alnum c then c else CHR '' '') xs)
     = filter is_alnum xs"
  by (induction xs) (simp_all add: alnum_not_space space_is_space)

lemma condensed_filter: "condensed raw = filter is_alnum (toUpperCase raw)"
  by (simp add: condensed_def cleaned_def blank_then_strip)

lemma condensed_alnum: "c \<in> set (condensed raw) \<Longrightarrow> is_alnum c"
  by (simp add: condensed_filter)

lemma strict_at_shape:
  "strict_at s \<longleftrightarrow> 7 \<le> length s \<and> strict_shape (take 7 s)"
  by (induction s rule: strict_at.induct) (simp_all add: strict_shape_def)

lemma strict_occurs:
  "occurs_at m i s \<and> strict_shape m \<longleftrightarrow> strict_at (drop i s) \<and> m = take 7 (drop i s)"
proof
  assume a: "occurs_at m i s \<and> strict_shape m"
  then have len: "length m = 7" by (simp add: strict_shape_def)
  have m: "take 7 (drop i s) = m" "i + 7 \<le> length s"
    using a len by (simp_all add: occurs_at_def)
  then show "strict_at (drop i s) \<and> m = take 7 (drop i s)"
    using a by (simp add: strict_at_shape)
next
  assume b: "strict_at (drop i s) \<and> m = take 7 (drop i s)"
  then have "7 \<le> length (drop i s)" "strict_shape m"
    by (simp_all add: strict_at_shape)
  then show "occurs_at m i s \<and> strict_shape m"
    using b by (simp add: occurs_at_def strict_shape_def)
qed

lemma match_strict_first:
  "strict_at (drop i s) \<Longrightarrow> (\<forall>j < i. \<not> strict_at (drop j s)) \<Longrightarrow>
   match_strict s = Some (take 7 (drop i s))"
proof (induction s arbitrary: i)
  case Nil
  then show ?case by simp
next
  case (Cons c cs)
  show ?case
  proof (cases i)
    case 0
    then show ?thesis using Cons.prems by simp
  next
    case (Suc k)
    have "\<not> strict_at (drop 0 (c # cs))"
      using Cons.prems(2) Suc by blast
    then have "\<not> strict_at (c # cs)"
      by simp
    moreover have "match_strict cs = Some (take 7 (drop k cs))"
    proof (rule Cons.IH)
      show "strict_at (drop k cs)" using Cons.prems(1) Suc by simp
      show "\<forall>j < k. \<not> strict_at (drop j cs)"
      proof (intro allI impI)
        fix j assume "j < k"
        then have "Suc j < i" using Suc by simp
        then have "\<not> strict_at (drop (Suc j) (c # cs))"
          using Cons.prems(2) by blast
        then show "\<not> strict_at (drop j cs)" by simp
      qed
    qed
    ultimately show ?thesis
      using Suc by simp
  qed
qed

lemma match_strict_None:
  "match_strict s = None \<longleftrightarrow> (\<forall>j. \<not> strict_at (drop j s))"
proof (induction s)
  case Nil
  show ?case by simp
next
  case (Cons c cs)
  show ?case
  proof (cases "strict_at (c # cs)")
    case True
    then have "match_strict (c # cs) \<noteq> None" "strict_at (drop 0 (c # cs))"
      by simp_all
    then show ?thesis by blast
  next
    case False
    have "(\<forall>j. \<not> strict_at (drop j (c # cs))) \<longleftrightarrow> (\<forall>j. \<not> strict_at (drop j cs))"
    proof
      assume a: "\<forall>j. \<not> strict_at (drop j (c # cs))"
      show "\<forall>j. \<not> strict_at (drop j cs)"
      proof
        fix j show "\<not> strict_at (drop j cs)" using a [rule_format, of "Suc j"] by simp
      qed
    next
      assume a: "\<forall>j. \<not> strict_at (drop j cs)"
      show "\<forall>j. \<not> strict_at (drop j (c # cs))"
      proof
        fix j show "\<not> strict_at (drop j (c # cs))"
          using a False by (cases j) simp_all
      qed
    qed
    then show ?thesis
      using False Cons.IH by simp
  qed
qed


lemma takeWhile_covers_prefix:
  assumes "n \<le> length xs" "\<forall>c \<in> set (take n xs). P c"
  shows "n \<le> length (takeWhile P xs)"
proof -
  have "takeWhile P xs = takeWhile P (take n xs @ drop n xs)"
    by simp
  also have "\<dots> = take n xs @ takeWhile P (drop n xs)"
    using assms(2) by (intro takeWhile_append2) simp
  finally show ?thesis
    using assms(1) by simp
qed

lemma loose_shape_alnum: "loose_shape m \<longleftrightarrow> 5 \<le> length m \<and> length m \<le> 8 \<and> (\<forall>c \<in> set m. is_alnum c)"
  unfolding loose_shape_def by (metis in_set_conv_nth nth_mem)

lemma loose_at_Some:
  assumes "loose_at (drop i s) = Some r"
  shows "occurs_at r i s" "loose_shape r"
    "r = takeWhile is_alnum (take 8 (drop i s))"
proof -
  let ?t = "take 8 (drop i s)"
  have r: "r = takeWhile is_alnum ?t" and five: "5 \<le> length r"
    using assms by (auto simp: loose_at_def Let_def split: if_splits)
  show "r = takeWhile is_alnum ?t" by (rule r)
  have le: "length r \<le> length ?t"
    unfolding r by (rule length_takeWhile_le)
  then have le8: "length r \<le> 8" and les: "length r \<le> length (drop i s)"
    by simp_all
  have "r = take (length r) ?t"
    unfolding r by (rule takeWhile_eq_take)
  also have "\<dots> = take (length r) (drop i s)"
    using le8 by (simp add: min_def)
  finally have pre: "take (length r) (drop i s) = r" by simp
  have "i + length r \<le> length s"
    using les five by simp
  then show "occurs_at r i s"
    using pre by (simp add: occurs_at_def)
  have "\<forall>c \<in> set r. is_alnum c"
    unfolding r using set_takeWhileD by fastforce
  then show "loose_shape r"
    using five le8 by (simp add: loose_shape_alnum)
qed

lemma loose_at_covers:
  assumes "occurs_at m i s" "loose_shape m"
  shows "\<exists>r. loose_at (drop i s) = Some r \<and> length m \<le> length r"
proof -
  let ?t = "take 8 (drop i s)"
  have m: "take (length m) (drop i s) = m" "i + length m \<le> length s"
    using assms(1) by (simp_all add: occurs_at_def)
  have sh: "5 \<le> length m" "length m \<le> 8" "\<forall>c \<in> set m. is_alnum c"
    using assms(2) by (simp_all add: loose_shape_alnum)
  have "take (length m) ?t = m"
    using m(1) sh(2) by (simp add: min_def)
  moreover have "length m \<le> length ?t"
    using m(2) sh(2) by simp
  ultimately have "length m \<le> length (takeWhile is_alnum ?t)"
    using sh(3) by (intro takeWhile_covers_prefix) simp_all
  then show ?thesis
    using sh(1) by (simp add: loose_at_def Let_def)
qed

lemma match_loose_first:
  "loose_at (drop i s) = Some r \<Longrightarrow> (\<forall>j < i. loose_at (drop j s) = None) \<Longrightarrow>
   match_loose s = Some r"
proof (induction s arbitrary: i)
  case Nil
  then show ?case by (simp add: loose_at_def)
next
  case (Cons c cs)
  show ?case
  proof (cases i)
    case 0
    then show ?thesis using Cons.prems by simp
  next
    case (Suc k)
    have "loose_at (drop 0 (c # cs)) = None"
      using Cons.prems(2) Suc by blast
    then have "loose_at (c # cs) = None"
      by simp
    moreover have "match_loose cs = Some r"
    proof (rule Cons.IH)
      show "loose_at (drop k cs) = Some r" using Cons.prems(1) Suc by simp
      show "\<forall>j < k. loose_at (drop j cs) = None"
      proof (intro allI impI)
        fix j assume "j < k"
        then have "Suc j < i" using Suc by simp
        then have "loose_at (drop (Suc j) (c # cs)) = None"
          using Cons.prems(2) by blast
        then show "loose_at (drop j cs) = None" by simp
      qed
    qed
    ultimately show ?thesis
      by simp
  qed
qed

lemma match_loose_None:
  "(\<forall>j. loose_at (drop j s) = None) \<Longrightarrow> match_loose s = None"
proof (induction s)
  case Nil
  show ?case by simp
next
  case (Cons c cs)
  have "loose_at (drop 0 (c # cs)) = None"
    using Cons.prems by blast
  then have here: "loose_at (c # cs) = None"
    by simp
  have "\<forall>j. loose_at (drop j cs) = None"
  proof
    fix j show "loose_at (drop j cs) = None"
      using Cons.prems [rule_format, of "Suc j"] by simp
  qed
  then show ?case
    using Cons.IH here by simp
qed

lemma test_strict_shape: "test_strict t = strict_shape t"
  by (auto simp: test_strict_def strict_at_shape strict_shape_def)

lemma test_loose_shape: "test_loose t = loose_shape t"
  by (auto simp: test_loose_def loose_shape_alnum list_all_iff)

lemma strip_dropWhile:
  "filter (\<lambda>c. \<not> is_space c) (dropWhile is_space cs) = filter (\<lambda>c. \<not> is_space c) cs"
  by (induction cs) simp_all

lemma concat_split_ws: "concat (split_ws cur s) = cur @ filter (\<lambda>c. \<not> is_space c) s"
  by (induction cur s rule: split_ws.induct) (simp_all add: strip_dropWhile)

lemma concat_nonempty: "concat (filter (\<lambda>t. t \<noteq> []) ts) = concat ts"
  by (induction ts) simp_all

lemma concat_candidates: "concat (candidates raw) = condensed raw"
  by (simp add: candidates_def concat_nonempty concat_split_ws condensed_def)


lemma extract_strict:
  assumes "occurs_at m i (condensed raw)" "strict_shape m"
    and "\<forall>j m'. occurs_at m' j (condensed raw) \<and> strict_shape m' \<longrightarrow> i \<le> j"
  shows "extractPlate raw = m"
proof -
  have here: "strict_at (drop i (condensed raw))" "m = take 7 (drop i (condensed raw))"
    using assms(1,2) strict_occurs by blast+
  have "\<not> strict_at (drop j (condensed raw))" if "j < i" for j
  proof
    assume "strict_at (drop j (condensed raw))"
    then have "occurs_at (take 7 (drop j (condensed raw))) j (condensed raw)
        \<and> strict_shape (take 7 (drop j (condensed raw)))"
      using strict_occurs by blast
    then have "i \<le> j" using assms(3) by blast
    then show False using that by simp
  qed
  then have "match_strict (condensed raw) = Some m"
    using match_strict_first [OF here(1)] here(2) by simp
  then show ?thesis
    by (simp add: extractPlate_def)
qed

lemma no_strict:
  "(\<forall>j m'. \<not> (occurs_at m' j s \<and> strict_shape m')) \<Longrightarrow> match_strict s = None"
  using strict_occurs by (simp add: match_strict_None)

lemma extract_loose:
  assumes none: "\<forall>j m'. \<not> (occurs_at m' j (condensed raw) \<and> strict_shape m')"
    and m: "occurs_at m i (condensed raw)" "loose_shape m"
    and first: "\<forall>j m'. occurs_at m' j (condensed raw) \<and> loose_shape m'
        \<longrightarrow> i \<le> j \<and> (j = i \<longrightarrow> length m' \<le> length m)"
  shows "extractPlate raw = m"
proof -
  obtain r where r: "loose_at (drop i (condensed raw)) = Some r" "length m \<le> length r"
    using loose_at_covers [OF m] by blast
  note rm = loose_at_Some [OF r(1)]
  have "length r \<le> length m"
    using first rm(1,2) by blast
  then have len: "length r = length m"
    using r(2) by simp
  have "r = take (length r) (drop i (condensed raw))"
    using rm(1) by (simp add: occurs_at_def)
  moreover have "m = take (length m) (drop i (condensed raw))"
    using m(1) by (simp add: occurs_at_def)
  ultimately have "r = m"
    using len by simp
  have "loose_at (drop j (condensed raw)) = None" if "j < i" for j
  proof (rule ccontr)
    assume "loose_at (drop j (condensed raw)) \<noteq> None"
    then obtain r' where "loose_at (drop j (condensed raw)) = Some r'" by blast
    then have "occurs_at r' j (condensed raw) \<and> loose_shape r'"
      using loose_at_Some(1,2) by blast
    then have "i \<le> j" using first by blast
    then show False using that by simp
  qed
  then have "match_loose (condensed raw) = Some m"
    using match_loose_first [OF r(1)] \<open>r = m\<close> by simp
  then show ?thesis
    using no_strict [OF none] by (simp add: extractPlate_def)
qed

lemma extract_tokens:
  assumes "\<forall>j m'. \<not> (occurs_at m' j (condensed raw) \<and> (strict_shape m' \<or> loose_shape m'))"
  shows "extractPlate raw
       = (case find strict_shape (candidates raw) of Some t \<Rightarrow> t
          | None \<Rightarrow> (case find loose_shape (candidates raw) of Some t \<Rightarrow> t | None \<Rightarrow> []))"
proof -
  have "match_strict (condensed raw) = None"
    using assms by (intro no_strict) blast
  moreover have "loose_at (drop j (condensed raw)) = None" for j
  proof (rule ccontr)
    assume "loose_at (drop j (condensed raw)) \<noteq> None"
    then obtain r' where "loose_at (drop j (condensed raw)) = Some r'" by blast
    then have "occurs_at r' j (condensed raw) \<and> loose_shape r'"
      using loose_at_Some(1,2) by blast
    then show False using assms by blast
  qed
  then have "match_loose (condensed raw) = None"
    by (intro match_loose_None) blast
  moreover have "test_strict = strict_shape" "test_loose = loose_shape"
    by (auto simp: test_strict_shape test_loose_shape)
  ultimately show ?thesis
    unfolding extractPlate_def by (simp only: option.case)
qed

lemma extractPlate_examples:
  "extractPlate ''LM22 XPT'' = ''LM22XPT''"
  "extractPlate ''L M 2 2 X P T'' = ''LM22XPT''"
  "extractPlate ''??##??'' = []"
  by code_simp+

text \<open>
  When neither pattern matches the condensed string it has fewer than five characters,
  and so has every token, the tokens being pieces of it: the two tests on the tokens
  never succeed, and \<open>extractPlate\<close> is decided by the condensed string alone.
\<close>

lemma condensed_short:
  assumes "match_loose (condensed raw) = None"
  shows "length (condensed raw) < 5"
proof (rule ccontr)
  assume "\<not> length (condensed raw) < 5"
  then have five: "5 \<le> length (condensed raw)" by simp
  have "takeWhile is_alnum (take 8 (condensed raw)) = take 8 (condensed raw)"
    by (intro takeWhile_eq_all_conv [THEN iffD2]) (auto dest: in_set_takeD condensed_alnum)
  then have "length (takeWhile is_alnum (take 8 (condensed raw))) = min (length (condensed raw)) 8"
    by (simp only: length_take)
  then have "loose_at (condensed raw) \<noteq> None"
    using five by (simp add: loose_at_def Let_def)
  then have "match_loose (condensed raw) \<noteq> None"
    using five by (cases "condensed raw") (auto split: option.splits)
  then show False using assms by simp
qed

lemma token_stages_never_match:
  "extractPlate raw
     = (case match_strict (condensed raw) of Some strict \<Rightarrow> strict
        | None \<Rightarrow> (case match_loose (condensed raw) of Some loose \<Rightarrow> loose | None \<Rightarrow> []))"
proof (cases "match_strict (condensed raw) = None \<and> match_loose (condensed raw) = None")
  case False
  then show ?thesis
    by (auto simp: extractPlate_def split: option.splits)
next
  case True
  then have short: "length (condensed raw) < 5"
    using condensed_short by blast
  have "\<not> test_strict t \<and> \<not> test_loose t" if t: "t \<in> set (candidates raw)" for t
  proof -
    obtain xs ys where "candidates raw = xs @ t # ys"
      using split_list [OF t] by blast
    then have "length (concat (candidates raw)) = length (concat xs) + length t + length (concat ys)"
      by simp
    then have "length t < 5"
      using short by (simp add: concat_candidates)
    then show ?thesis
      by (auto simp: test_strict_def test_loose_def)
  qed
  then have "find test_strict (candidates raw) = None" "find test_loose (candidates raw) = None"
    by (simp_all add: find_None_iff)
  then show ?thesis
    using True by (simp add: extractPlate_def)
qed

text \<open>
  Claim C1. The condensed string is the upper-cased text with everything but letters
  and digits removed. A string \<open>m\<close> occurs at position \<open>i\<close> of it when it is the segment
  of its length starting there. (1) If a segment of the strict shape, two letters, two
  digits, three letters, occurs, the result is the leftmost one. (2) Otherwise, if a
  segment of five to eight letters and digits occurs, the result is the leftmost one,
  and the longest at that position. (3) Otherwise the result is the first token of the
  strict shape, else the first token of five to eight letters and digits, else the
  empty string. The three examples of the specification evaluate as it says.
\<close>

theorem extractPlate_policy:
  "condensed raw = filter is_alnum (toUpperCase raw)
   \<and> (occurs_at m i (condensed raw) \<and> strict_shape m
        \<and> (\<forall>j m'. occurs_at m' j (condensed raw) \<and> strict_shape m' \<longrightarrow> i \<le> j)
      \<longrightarrow> extractPlate raw = m)
   \<and> ((\<forall>j m'. \<not> (occurs_at m' j (condensed raw) \<and> strict_shape m'))
        \<and> occurs_at m i (condensed raw) \<and> loose_shape m
        \<and> (\<forall>j m'. occurs_at m' j (condensed raw) \<and> loose_shape m'
               \<longrightarrow> i \<le> j \<and> (j = i \<longrightarrow> length m' \<le> length m))
      \<longrightarrow> extractPlate raw = m)
   \<and> ((\<forall>j m'. \<not> (occurs_at m' j (condensed raw) \<and> (strict_shape m' \<or> loose_shape m')))
      \<longrightarrow> extractPlate raw
            = (case find strict_shape (candidates raw) of Some t \<Rightarrow> t
               | None \<Rightarrow> (case find loose_shape (candidates raw) of Some t \<Rightarrow> t
                          | None \<Rightarrow> [])))
   \<and> extractPlate ''LM22 XPT'' = ''LM22XPT''
   \<and> extractPlate ''L M 2 2 X P T'' = ''LM22XPT''
   \<and> extractPlate ''??##??'' = []"
  using condensed_filter extract_strict extract_loose extract_tokens extractPlate_examples
  by (intro conjI impI) blast+

text \<open>
  The three stages at work: \<open>x ab12 cde\<close> has its strict segment at position \<open>1\<close>,
  \<open>ab 123\<close> has no strict segment and one loose run, and \<open>a-1\<close> has neither.
\<close>

theorem extractPlate_policy_witness:
  "condensed ''x ab12 cde'' = ''XAB12CDE''
   \<and> extractPlate ''x ab12 cde'' = ''AB12CDE''
   \<and> condensed ''ab 123'' = ''AB123''
   \<and> extractPlate ''ab 123'' = ''AB123''
   \<and> condensed ''a-1'' = ''A1''
   \<and> extractPlate ''a-1'' = []"
proof -
  have c1: "condensed ''x ab12 cde'' = ''XAB12CDE''"
    by code_simp
  have c2: "condensed ''ab 123'' = ''AB123''"
    by code_simp
  have c3: "condensed ''a-1'' = ''A1''"
    by code_simp
  have shape7: "strict_shape m \<Longrightarrow> length m = 7" for m
    by (simp add: strict_shape_def)
  have shape5: "loose_shape m \<Longrightarrow> 5 \<le> length m" for m
    by (simp add: loose_shape_def)
  have s_here: "occurs_at ''AB12CDE'' (Suc 0) (condensed ''x ab12 cde'') \<and> strict_shape ''AB12CDE''"
    unfolding c1 by (simp add: occurs_at_def strict_shape_def is_AZ_def is_digit_def)
  have s_first: "\<forall>j m'. occurs_at m' j (condensed ''x ab12 cde'') \<and> strict_shape m' \<longrightarrow> Suc 0 \<le> j"
  proof (intro allI impI)
    fix j m'
    assume a: "occurs_at m' j (condensed ''x ab12 cde'') \<and> strict_shape m'"
    then have at: "strict_at (drop j ''XAB12CDE'')"
      unfolding c1 using strict_occurs by blast
    have "j \<noteq> 0"
    proof
      assume "j = 0"
      then have "strict_at ''XAB12CDE''"
        using at by simp
      then show False
        by (simp add: is_AZ_def is_digit_def)
    qed
    then show "Suc 0 \<le> j"
      by simp
  qed
  have l_none: "\<forall>j m'. \<not> (occurs_at m' j (condensed ''ab 123'') \<and> strict_shape m')"
    unfolding c2 using shape7 by (fastforce simp: occurs_at_def)
  have l_here: "occurs_at ''AB123'' 0 (condensed ''ab 123'') \<and> loose_shape ''AB123''"
    unfolding c2 by (simp add: occurs_at_def loose_shape_alnum is_alnum_def is_AZ_def is_digit_def)
  have l_first: "\<forall>j m'. occurs_at m' j (condensed ''ab 123'') \<and> loose_shape m'
      \<longrightarrow> 0 \<le> j \<and> (j = 0 \<longrightarrow> length m' \<le> length ''AB123'')"
    unfolding c2 by (simp add: occurs_at_def)
  have t_none: "\<forall>j m'. \<not> (occurs_at m' j (condensed ''a-1'') \<and> (strict_shape m' \<or> loose_shape m'))"
    unfolding c3 using shape7 shape5 by (fastforce simp: occurs_at_def)
  have toks: "candidates ''a-1'' = [''A'', ''1'']"
    by code_simp
  have t_rhs: "(case find strict_shape (candidates ''a-1'') of Some t \<Rightarrow> t
       | None \<Rightarrow> (case find loose_shape (candidates ''a-1'') of Some t \<Rightarrow> t | None \<Rightarrow> [])) = []"
    unfolding toks by (simp add: strict_shape_def loose_shape_def)
  have strict: "extractPlate ''x ab12 cde'' = ''AB12CDE''"
    using extractPlate_policy [of "''x ab12 cde''" "''AB12CDE''" "Suc 0"] s_here s_first by blast
  have loose: "extractPlate ''ab 123'' = ''AB123''"
    using extractPlate_policy [of "''ab 123''" "''AB123''" 0] l_none l_here l_first by blast
  have tokens: "extractPlate ''a-1'' = []"
    using extractPlate_policy [of "''a-1''" "[]" 0] t_none t_rhs by simp
  show ?thesis
    using c1 c2 c3 strict loose tokens by simp
qed

section \<open>Properties of the scan attempt and its timeout\<close>

text \<open>
  What \<open>extractPlate\<close> returns is made of characters of the condensed string, so
  \<open>normalizePlate\<close> leaves it as it is: \<open>handleDetectPlate\<close> shows the plate that
  \<open>runOcr\<close> returns.
\<close>

lemma match_strict_set: "match_strict s = Some m \<Longrightarrow> set m \<subseteq> set s"
proof (induction s)
  case Nil
  then show ?case by simp
next
  case (Cons c cs)
  show ?case
  proof (cases "strict_at (c # cs)")
    case True
    then have "m = take 7 (c # cs)"
      using Cons.prems by simp
    then show ?thesis
      using set_take_subset by metis
  next
    case False
    then show ?thesis
      using Cons by auto
  qed
qed

lemma loose_at_set: "loose_at s = Some m \<Longrightarrow> set m \<subseteq> set s"
  by (auto simp: loose_at_def Let_def split: if_splits dest: set_takeWhileD in_set_takeD)

lemma match_loose_set: "match_loose s = Some m \<Longrightarrow> set m \<subseteq> set s"
proof (induction s)
  case Nil
  then show ?case by simp
next
  case (Cons c cs)
  show ?case
  proof (cases "loose_at (c # cs)")
    case None
    then show ?thesis
      using Cons by auto
  next
    case (Some r)
    then have "m = r"
      using Cons.prems by simp
    then show ?thesis
      using loose_at_set [OF Some] by simp
  qed
qed

lemma extractPlate_subset: "set (extractPlate raw) \<subseteq> set (condensed raw)"
proof (cases "match_strict (condensed raw)")
  case (Some m)
  then show ?thesis
    using match_strict_set [OF Some] by (simp add: token_stages_never_match)
next
  case None
  show ?thesis
  proof (cases "match_loose (condensed raw)")
    case (Some m)
    then show ?thesis
      using None match_loose_set [OF Some] by (simp add: token_stages_never_match)
  next
    case none: None
    then show ?thesis
      using None by (simp add: token_stages_never_match)
  qed
qed

lemma extractPlate_alnum: "c \<in> set (extractPlate raw) \<Longrightarrow> is_alnum c"
  using extractPlate_subset condensed_alnum by blast

lemma to_upper_alnum: "is_alnum c \<Longrightarrow> to_upper c = c"
  by (auto simp: is_alnum_def is_AZ_def is_digit_def to_upper_def)

lemma normalizePlate_alnum: "(\<And>c. c \<in> set m \<Longrightarrow> is_alnum c) \<Longrightarrow> normalizePlate m = m"
  by (induction m) (simp_all add: normalizePlate_def toUpperCase_def to_upper_alnum)

lemma normalizePlate_extractPlate: "normalizePlate (extractPlate raw) = extractPlate raw"
  by (rule normalizePlate_alnum) (rule extractPlate_alnum)

text \<open>
  The clock. Running the callback of several due timers is running it once; time
  passing changes neither the point the attempt has reached nor the plate shown; a
  timer stays on the browser's list until it is due or the attempt ends.
\<close>

lemma callback_twice: "timeoutCallback (timeoutCallback s) = timeoutCallback s"
  by (simp add: timeoutCallback_def)

lemma fold_callback:
  "fold (\<lambda>timer. timeoutCallback) ts s = (if ts = [] then s else timeoutCallback s)"
  by (induction ts arbitrary: s) (simp_all add: callback_twice)

lemma advance_fields:
  "phase (advance t s) = phase s"
  "now (advance t s) = t"
  "ocrTimeoutRef (advance t s) = ocrTimeoutRef s"
  "detectedPlate (advance t s) = detectedPlate s"
  "pendingTimers (advance t s) = filter (\<lambda>timer. \<not> is_due t timer) (pendingTimers s)"
  by (simp_all add: advance_def fold_callback timeoutCallback_def)

lemma advance_fires:
  assumes "(t, due) \<in> set (pendingTimers s)" "due \<le> t'"
  shows "ocrStatus (advance t' s) = Error"
    and "ocrError (advance t' s) = Some ''Scan timed out. Please try again.''"
proof -
  have "(t, due) \<in> set (filter (is_due t') (pendingTimers s))"
    using assms by (simp add: is_due_def)
  then have "filter (is_due t') (pendingTimers s) \<noteq> []"
    by (metis empty_iff empty_set)
  then show "ocrStatus (advance t' s) = Error"
    and "ocrError (advance t' s) = Some ''Scan timed out. Please try again.''"
    by (simp_all add: advance_def fold_callback timeoutCallback_def)
qed

lemma clearOcrTimeout_fields:
  "phase (clearOcrTimeout s) = phase s"
  "now (clearOcrTimeout s) = now s"
  "ocrStatus (clearOcrTimeout s) = ocrStatus s"
  "ocrError (clearOcrTimeout s) = ocrError s"
  "detectedPlate (clearOcrTimeout s) = detectedPlate s"
  "nextTimerId (clearOcrTimeout s) = nextTimerId s"
  by (simp_all add: clearOcrTimeout_def clearTimeout_def split: option.splits)

lemma step_phase: "phase (step e s) \<noteq> NotRunning \<Longrightarrow> phase s \<noteq> NotRunning"
  by (cases e) (auto simp: advance_fields clearOcrTimeout_fields Let_def split: if_splits)

lemma step_now: "now s \<le> now (step e s)"
  by (cases e) (simp_all add: advance_fields clearOcrTimeout_fields Let_def)

lemma step_keeps:
  assumes "(t, due) \<in> set (pendingTimers s)" "phase (step e s) \<noteq> NotRunning"
    and "now (step e s) < due"
  shows "(t, due) \<in> set (pendingTimers (step e s))"
  using assms
  by (cases e) (auto simp: advance_fields is_due_def clearOcrTimeout_fields Let_def split: if_splits)

lemma run_snoc: "run (es @ es') s = run es' (run es s)"
  by (simp add: run_def)

lemma run_single: "run [e] s = step e s"
  by (simp add: run_def)

lemma run_keeps:
  "(t, due) \<in> set (pendingTimers s) \<Longrightarrow> phase (run es s) \<noteq> NotRunning \<Longrightarrow>
   now (run es s) < due \<Longrightarrow> (t, due) \<in> set (pendingTimers (run es s))"
proof (induction es rule: rev_induct)
  case Nil
  then show ?case by (simp add: run_def)
next
  case (snoc e es)
  have eq: "run (es @ [e]) s = step e (run es s)"
    by (simp add: run_snoc run_single)
  have "phase (run es s) \<noteq> NotRunning"
    using snoc.prems(2) step_phase unfolding eq by blast
  moreover have "now (run es s) < due"
    using snoc.prems(3) step_now [of "run es s" e] unfolding eq by simp
  ultimately have "(t, due) \<in> set (pendingTimers (run es s))"
    using snoc.IH snoc.prems(1) by blast
  then show ?case
    using snoc.prems(2,3) unfolding eq by (rule step_keeps)
qed

lemma start_fields:
  assumes "ocrStatus s \<noteq> Loading" "cameraReady s" "normalizePlate (js_trim (plateInput s)) = []"
  shows "ocrStatus (handleDetectPlate_start True s) = Loading"
    and "ocrError (handleDetectPlate_start True s) = None"
    and "phase (handleDetectPlate_start True s) = Detecting"
    and "now (handleDetectPlate_start True s) = now s"
    and "ocrTimeoutRef (handleDetectPlate_start True s) = Some (nextTimerId s)"
    and "(nextTimerId s, now s + 15000) \<in> set (pendingTimers (handleDetectPlate_start True s))"
  using assms
  by (simp_all add: handleDetectPlate_start_def setOcrTimeout_def clearOcrTimeout_fields)

lemma late_result:
  assumes "phase s = Recognising" "extractPlate (dtext d) \<noteq> []"
  shows "ocrStatus (step (OcrDone d) s) = Success"
    and "detectedPlate (step (OcrDone d) s) = Some (extractPlate (dtext d))"
    and "ocrConfidence (step (OcrDone d) s) = confidence d"
  using assms
  by (simp_all add: Let_def normalizePlate_extractPlate clearOcrTimeout_def clearTimeout_def
      split: option.splits)

text \<open>
  Claim C10, amended. Let an attempt start (\<open>handleDetectPlate\<close> with a snapshot, the
  status not \<open>loading\<close>, the camera ready, no manual plate) at time \<open>now s\<close>: the status
  becomes \<open>loading\<close> and a timer due 15000 milliseconds later is pending. Whatever
  happens next (\<open>es\<close>), if the attempt has not ended and less than 15000 milliseconds
  have passed, and then the clock reaches the bound, the status at that moment is
  \<open>error\<close> with the message \<open>Scan timed out. Please try again.\<close>, and the attempt is
  where it was: it is not abandoned. If the recognition is under way and its result
  arrives after that, with a plate in it, the status becomes \<open>success\<close> and the plate
  is shown.
\<close>

theorem scan_timeout_reported:
  assumes "ocrStatus s \<noteq> Loading" "cameraReady s" "normalizePlate (js_trim (plateInput s)) = []"
  shows "ocrStatus (handleDetectPlate_start True s) = Loading
     \<and> phase (handleDetectPlate_start True s) = Detecting
     \<and> (nextTimerId s, now s + 15000) \<in> set (pendingTimers (handleDetectPlate_start True s))
     \<and> (phase (run es (handleDetectPlate_start True s)) \<noteq> NotRunning
          \<and> now (run es (handleDetectPlate_start True s)) < now s + 15000
          \<and> now s + 15000 \<le> now (run es (handleDetectPlate_start True s)) + ms
        \<longrightarrow> ocrStatus (run (es @ [Elapse ms]) (handleDetectPlate_start True s)) = Error
          \<and> ocrError (run (es @ [Elapse ms]) (handleDetectPlate_start True s))
              = Some ''Scan timed out. Please try again.''
          \<and> phase (run (es @ [Elapse ms]) (handleDetectPlate_start True s))
              = phase (run es (handleDetectPlate_start True s)))
     \<and> (phase (run es (handleDetectPlate_start True s)) = Recognising
          \<and> now (run es (handleDetectPlate_start True s)) < now s + 15000
          \<and> now s + 15000 \<le> now (run es (handleDetectPlate_start True s)) + ms
          \<and> extractPlate (dtext d) \<noteq> []
        \<longrightarrow> ocrStatus (run (es @ [Elapse ms, OcrDone d]) (handleDetectPlate_start True s)) = Success
          \<and> detectedPlate (run (es @ [Elapse ms, OcrDone d]) (handleDetectPlate_start True s))
              = Some (extractPlate (dtext d)))"
proof -
  let ?s = "handleDetectPlate_start True s"
  note start = start_fields [OF assms]
  have fires: "ocrStatus (run (es @ [Elapse ms]) ?s) = Error
      \<and> ocrError (run (es @ [Elapse ms]) ?s) = Some ''Scan timed out. Please try again.''
      \<and> phase (run (es @ [Elapse ms]) ?s) = phase (run es ?s)"
    if running: "phase (run es ?s) \<noteq> NotRunning"
      and before: "now (run es ?s) < now s + 15000"
      and after: "now s + 15000 \<le> now (run es ?s) + ms"
  proof -
    have pending: "(nextTimerId s, now s + 15000) \<in> set (pendingTimers (run es ?s))"
      using start(6) running before by (rule run_keeps)
    have eq: "run (es @ [Elapse ms]) ?s = advance (now (run es ?s) + ms) (run es ?s)"
      by (simp add: run_snoc run_single)
    show ?thesis
      unfolding eq using advance_fires [OF pending after] by (simp add: advance_fields)
  qed
  have late: "ocrStatus (run (es @ [Elapse ms, OcrDone d]) ?s) = Success
      \<and> detectedPlate (run (es @ [Elapse ms, OcrDone d]) ?s) = Some (extractPlate (dtext d))"
    if recognising: "phase (run es ?s) = Recognising"
      and plate: "extractPlate (dtext d) \<noteq> []"
  proof -
    have eq: "run (es @ [Elapse ms, OcrDone d]) ?s
        = step (OcrDone d) (advance (now (run es ?s) + ms) (run es ?s))"
      by (simp add: run_def)
    have "phase (advance (now (run es ?s) + ms) (run es ?s)) = Recognising"
      using recognising by (simp add: advance_fields)
    then show ?thesis
      unfolding eq using late_result(1,2) plate by blast
  qed
  show ?thesis
    using start(1,3,6) fires late by blast
qed

text \<open>
  An attempt whose detection takes ten seconds and whose recognition takes more than
  five: the timeout is reported at sixteen seconds, and the plate when it arrives.
\<close>

theorem scan_timeout_reported_witness:
  "ocrStatus (run [Elapse 10000, OcrStarted, Elapse 2000, Elapse 4000]
                (handleDetectPlate_start True initial_page)) = Error
   \<and> ocrError (run [Elapse 10000, OcrStarted, Elapse 2000, Elapse 4000]
                 (handleDetectPlate_start True initial_page))
       = Some ''Scan timed out. Please try again.''
   \<and> ocrStatus (run [Elapse 10000, OcrStarted, Elapse 2000, Elapse 4000,
                     OcrDone \<lparr>dtext = ''LM22XPT'', confidence = Some (Num 90)\<rparr>]
                (handleDetectPlate_start True initial_page)) = Success
   \<and> detectedPlate (run [Elapse 10000, OcrStarted, Elapse 2000, Elapse 4000,
                         OcrDone \<lparr>dtext = ''LM22XPT'', confidence = Some (Num 90)\<rparr>]
                    (handleDetectPlate_start True initial_page)) = Some ''LM22XPT''"
proof -
  let ?es = "[Elapse 10000, OcrStarted, Elapse 2000]"
  let ?d = "\<lparr>dtext = ''LM22XPT'', confidence = Some (Num 90)\<rparr>"
  have guards: "ocrStatus initial_page \<noteq> Loading" "cameraReady initial_page"
    "normalizePlate (js_trim (plateInput initial_page)) = []"
    by (simp_all add: initial_page_def normalizePlate_def js_trim_def toUpperCase_def)
  have start: "handleDetectPlate_start True initial_page
      = \<lparr>ocrStatus = Loading, ocrError = None, ocrConfidence = None, detectedPlate = None,
         plateInput = [], cameraReady = False, ocrTimeoutRef = Some 0,
         pendingTimers = [(0, 15000)], nextTimerId = Suc 0, now = 0, phase = Detecting\<rparr>"
    by (simp add: handleDetectPlate_start_def initial_page_def normalizePlate_def js_trim_def
        toUpperCase_def setOcrTimeout_def clearOcrTimeout_def)
  have mid: "run ?es (handleDetectPlate_start True initial_page)
      = \<lparr>ocrStatus = Loading, ocrError = None, ocrConfidence = None, detectedPlate = None,
         plateInput = [], cameraReady = False, ocrTimeoutRef = Some 0,
         pendingTimers = [(0, 15000)], nextTimerId = Suc 0, now = 12000, phase = Recognising\<rparr>"
    unfolding start by (simp add: run_def advance_def is_due_def)
  have hyps: "phase (run ?es (handleDetectPlate_start True initial_page)) \<noteq> NotRunning"
    "phase (run ?es (handleDetectPlate_start True initial_page)) = Recognising"
    "now (run ?es (handleDetectPlate_start True initial_page)) < now initial_page + 15000"
    "now initial_page + 15000 \<le> now (run ?es (handleDetectPlate_start True initial_page)) + 4000"
    unfolding mid by (simp_all add: initial_page_def)
  have plate: "extractPlate (dtext ?d) = ''LM22XPT''"
    unfolding decoded.select_convs by code_simp
  have apps: "?es @ [Elapse 4000] = [Elapse 10000, OcrStarted, Elapse 2000, Elapse 4000]"
    "?es @ [Elapse 4000, OcrDone ?d]
       = [Elapse 10000, OcrStarted, Elapse 2000, Elapse 4000, OcrDone ?d]"
    by simp_all
  show ?thesis
    using scan_timeout_reported [OF guards, of ?es 4000 ?d] hyps plate
    unfolding apps by simp
qed

text \<open>
  Claim C10 as it is written fails in its last part. The recognition starts at once,
  the timeout fires at 15000 milliseconds, no plate being shown, and the result arrives
  afterwards: it is not ignored, the status is \<open>success\<close> and the plate is shown.
\<close>

theorem late_result_counterexample:
  "ocrStatus (run [OcrStarted, Elapse 15000] (handleDetectPlate_start True initial_page)) = Error
   \<and> ocrError (run [OcrStarted, Elapse 15000] (handleDetectPlate_start True initial_page))
       = Some ''Scan timed out. Please try again.''
   \<and> detectedPlate (run [OcrStarted, Elapse 15000] (handleDetectPlate_start True initial_page))
       = None
   \<and> ocrStatus (run [OcrStarted, Elapse 15000,
                     OcrDone \<lparr>dtext = ''LM22XPT'', confidence = Some (Num 90)\<rparr>]
                (handleDetectPlate_start True initial_page)) = Success
   \<and> detectedPlate (run [OcrStarted, Elapse 15000,
                         OcrDone \<lparr>dtext = ''LM22XPT'', confidence = Some (Num 90)\<rparr>]
                    (handleDetectPlate_start True initial_page)) = Some ''LM22XPT''"
proof -
  have start: "handleDetectPlate_start True initial_page
      = \<lparr>ocrStatus = Loading, ocrError = None, ocrConfidence = None, detectedPlate = None,
         plateInput = [], cameraReady = False, ocrTimeoutRef = Some 0,
         pendingTimers = [(0, 15000)], nextTimerId = Suc 0, now = 0, phase = Detecting\<rparr>"
    by (simp add: handleDetectPlate_start_def initial_page_def normalizePlate_def js_trim_def
        toUpperCase_def setOcrTimeout_def clearOcrTimeout_def)
  have fired: "run [OcrStarted, Elapse 15000] (handleDetectPlate_start True initial_page)
      = \<lparr>ocrStatus = Error, ocrError = Some ''Scan timed out. Please try again.'',
         ocrConfidence = None, detectedPlate = None,
         plateInput = [], cameraReady = False, ocrTimeoutRef = Some 0,
         pendingTimers = [], nextTimerId = Suc 0, now = 15000, phase = Recognising\<rparr>"
    unfolding start by (simp add: run_def advance_def is_due_def timeoutCallback_def)
  have plate: "extractPlate ''LM22XPT'' = ''LM22XPT''" "normalizePlate ''LM22XPT'' = ''LM22XPT''"
    by code_simp+
  have split: "run [OcrStarted, Elapse 15000, OcrDone d] s
      = step (OcrDone d) (run [OcrStarted, Elapse 15000] s)" for d s
    by (simp add: run_def)
  show ?thesis
    unfolding split fired by (simp add: plate clearOcrTimeout_def clearTimeout_def Let_def)
qed

text \<open>
  When the timer fires during the detection, the start of \<open>runOcr\<close> replaces the
  report by \<open>loading\<close>, and no timer is left.
\<close>

lemma timeout_report_replaced:
  "ocrStatus (run [Elapse 15000, OcrStarted] (handleDetectPlate_start True initial_page)) = Loading
   \<and> ocrError (run [Elapse 15000, OcrStarted] (handleDetectPlate_start True initial_page)) = None
   \<and> pendingTimers (run [Elapse 15000, OcrStarted] (handleDetectPlate_start True initial_page)) = []"
  by (simp add: handleDetectPlate_start_def initial_page_def normalizePlate_def js_trim_def
      toUpperCase_def setOcrTimeout_def clearOcrTimeout_def run_def advance_def is_due_def
      timeoutCallback_def)

end
